theory Spec2Isabelle
  imports
    Complex_Main
    "HOL-Library.Multiset"
    "HOL-Library.Product_Lexorder"
    "HOL-Library.List_Lexorder"
    "HOL-Library.Char_ord"
begin

section \<open>The expense table\<close>

text \<open>
  The program keeps one SQLite table,
  \<^verbatim>\<open>expenses(id INTEGER PRIMARY KEY AUTOINCREMENT, tx_date TEXT NOT NULL,
  category TEXT NOT NULL, description TEXT, amount REAL NOT NULL, payment_method TEXT)\<close>,
  and reaches it through five functions, each of which opens its own connection, runs one
  statement and commits.

  The column \<open>tx_date\<close> is TEXT. The two places that write it (the add form and the edit
  form) pass \<open>isoformat()\<close> of a \<open>datetime.date\<close>, the text \<open>YYYY-MM-DD\<close>. On such a text
  SQLite's \<open>date()\<close> is the identity, and the comparison of two such texts is the
  comparison of year, then month, then day. The model keeps the \<open>datetime.date\<close> itself and
  compares dates through \<open>date_key\<close>.

  The column \<open>amount\<close> is REAL: an amount is an IEEE double, and its value is a real
  number. Where a property of a sum depends on how the additions round, the summation is
  made explicit (see the totals by category); elsewhere sums are the sums of the values.
\<close>

datatype date = Date (year: nat) (month: nat) (day: nat)

definition date_key :: "date \<Rightarrow> nat \<times> nat \<times> nat" where
  "date_key d = (year d, month d, day d)"

record expense =
  id_col :: int
  tx_date :: date
  category :: string
  description :: string
  amount :: real
  payment_method :: string

text \<open>
  A table is its rows, in rowid order, together with the entry that SQLite keeps for an
  AUTOINCREMENT table in \<open>sqlite_sequence\<close>: the largest rowid the table has ever held.
  The database file either holds the table or does not hold it yet.
\<close>

record table =
  rows :: "expense list"
  seq :: int

type_synonym db = "table option"

datatype error = NoSuchTable | DatabaseFull | OverflowError

definition MAX_ROWID :: int where
  "MAX_ROWID = 9223372036854775807"

definition MIN_ROWID :: int where
  "MIN_ROWID = - 9223372036854775808"

text \<open>
  An id that Python passes as a parameter of a statement must fit SQLite's INTEGER, a
  signed 64-bit integer: for any other \<open>int\<close> the binding raises \<open>OverflowError\<close>, after the
  statement has been compiled against the table.
\<close>

definition int64 :: "int \<Rightarrow> bool" where
  "int64 i \<longleftrightarrow> MIN_ROWID \<le> i \<and> i \<le> MAX_ROWID"

subsection \<open>init_db\<close>

text \<open>\<^verbatim>\<open>CREATE TABLE IF NOT EXISTS expenses (...)\<close>: an existing table is left as it is.\<close>

definition init_db :: "db \<Rightarrow> db" where
  "init_db d = (case d of None \<Rightarrow> Some \<lparr>rows = [], seq = 0\<rparr> | Some t \<Rightarrow> Some t)"

subsection \<open>add_expense\<close>

text \<open>
  \<^verbatim>\<open>INSERT INTO expenses (tx_date, category, description, amount, payment_method)
  VALUES (?, ?, ?, ?, ?)\<close>. The id is not given, so SQLite chooses it: with AUTOINCREMENT
  it is one more than the largest rowid that ever existed in the table, the larger of the
  \<open>sqlite_sequence\<close> entry and the largest rowid now present. When that largest rowid is
  the largest 64-bit integer the insert fails with SQLITE_FULL.
\<close>

definition largest_rowid :: "table \<Rightarrow> int" where
  "largest_rowid t = fold max (map id_col (rows t)) (seq t)"

definition add_expense ::
  "db \<Rightarrow> date \<Rightarrow> string \<Rightarrow> string \<Rightarrow> real \<Rightarrow> string \<Rightarrow> error + db" where
  "add_expense d tx_date' category' description' amount' payment_method' =
     (case d of
        None \<Rightarrow> Inl NoSuchTable
      | Some t \<Rightarrow>
          if MAX_ROWID \<le> largest_rowid t then Inl DatabaseFull
          else Inr (Some \<lparr>rows = rows t @
                       [\<lparr>id_col = largest_rowid t + 1, tx_date = tx_date',
                         category = category', description = description',
                         amount = amount', payment_method = payment_method'\<rparr>],
                     seq = largest_rowid t + 1\<rparr>))"

subsection \<open>fetch_expenses\<close>

text \<open>
  The query starts as \<^verbatim>\<open>SELECT ... FROM expenses WHERE 1=1\<close> and gets one more conjunct,
  with its parameter, for each filter that Python takes as true: a start date and an end
  date that are not \<open>None\<close>, and a category that is neither \<open>None\<close> nor empty nor
  \<^verbatim>\<open>"All"\<close>. It ends with \<^verbatim>\<open>ORDER BY date(tx_date) DESC, id DESC\<close>.
\<close>

datatype clause = Date_ge date | Date_le date | Category_eq string

definition build_query :: "date option \<Rightarrow> date option \<Rightarrow> string option \<Rightarrow> clause list" where
  "build_query start_date end_date category' =
     (case start_date of None \<Rightarrow> [] | Some a \<Rightarrow> [Date_ge a]) @
     (case end_date of None \<Rightarrow> [] | Some b \<Rightarrow> [Date_le b]) @
     (case category' of
        None \<Rightarrow> []
      | Some c \<Rightarrow> if c \<noteq> [] \<and> c \<noteq> ''All'' then [Category_eq c] else [])"

fun holds :: "clause \<Rightarrow> expense \<Rightarrow> bool" where
  "holds (Date_ge a) r = (date_key a \<le> date_key (tx_date r))"
| "holds (Date_le b) r = (date_key (tx_date r) \<le> date_key b)"
| "holds (Category_eq c) r = (category r = c)"

definition select_where :: "clause list \<Rightarrow> expense list \<Rightarrow> expense list" where
  "select_where cs rs = filter (\<lambda>r. list_all (\<lambda>c. holds c r) cs) rs"

definition order_key :: "expense \<Rightarrow> (nat \<times> nat \<times> nat) \<times> int" where
  "order_key r = (date_key (tx_date r), id_col r)"

definition order_by_desc :: "expense list \<Rightarrow> expense list" where
  "order_by_desc rs = rev (sort_key order_key rs)"

definition fetch_expenses ::
  "db \<Rightarrow> date option \<Rightarrow> date option \<Rightarrow> string option \<Rightarrow> error + expense list" where
  "fetch_expenses d start_date end_date category' =
     (case d of
        None \<Rightarrow> Inl NoSuchTable
      | Some t \<Rightarrow>
          Inr (order_by_desc (select_where (build_query start_date end_date category') (rows t))))"

subsection \<open>delete_expense\<close>

text \<open>\<^verbatim>\<open>DELETE FROM expenses WHERE id = ?\<close>. The \<open>sqlite_sequence\<close> entry stays.\<close>

definition delete_expense :: "db \<Rightarrow> int \<Rightarrow> error + db" where
  "delete_expense d expense_id =
     (case d of
        None \<Rightarrow> Inl NoSuchTable
      | Some t \<Rightarrow>
          if \<not> int64 expense_id then Inl OverflowError
          else Inr (Some (t\<lparr>rows := filter (\<lambda>r. id_col r \<noteq> expense_id) (rows t)\<rparr>)))"

subsection \<open>update_expense\<close>

text \<open>
  \<^verbatim>\<open>UPDATE expenses SET tx_date=?, category=?, description=?, amount=?, payment_method=?
  WHERE id=?\<close>.
\<close>

definition update_expense ::
  "db \<Rightarrow> int \<Rightarrow> date \<Rightarrow> string \<Rightarrow> string \<Rightarrow> real \<Rightarrow> string \<Rightarrow> error + db" where
  "update_expense d expense_id tx_date' category' description' amount' payment_method' =
     (case d of
        None \<Rightarrow> Inl NoSuchTable
      | Some t \<Rightarrow>
          if \<not> int64 expense_id then Inl OverflowError
          else Inr (Some (t\<lparr>rows :=
            map (\<lambda>r. if id_col r = expense_id
                      then r\<lparr>tx_date := tx_date', category := category',
                             description := description', amount := amount',
                             payment_method := payment_method'\<rparr>
                      else r) (rows t)\<rparr>)))"

section \<open>Histories of the table\<close>

text \<open>
  Two facts about the table are SQLite's doing, not the program's: \<open>id\<close> is the primary
  key, so no two rows share one, and no row has an id above the \<open>sqlite_sequence\<close> entry.
  A freshly created table has both, and every statement of the program keeps them.
\<close>

definition table_ok :: "table \<Rightarrow> bool" where
  "table_ok t \<longleftrightarrow>
     distinct (map id_col (rows t)) \<and> list_all (\<lambda>r. id_col r \<le> seq t) (rows t)"

definition db_ok :: "db \<Rightarrow> bool" where
  "db_ok d = (case d of None \<Rightarrow> True | Some t \<Rightarrow> table_ok t)"

definition ids :: "db \<Rightarrow> int set" where
  "ids d = (case d of None \<Rightarrow> {} | Some t \<Rightarrow> set (map id_col (rows t)))"

text \<open>
  The page calls the storage functions in whatever order the user clicks. A call that
  raises ends the run of the script and leaves the database file as it was.
\<close>

datatype op =
    Op_init
  | Op_add date string string real string
  | Op_update int date string string real string
  | Op_delete int

fun apply_op :: "db \<Rightarrow> op \<Rightarrow> error + db" where
  "apply_op d Op_init = Inr (init_db d)"
| "apply_op d (Op_add tx c de a p) = add_expense d tx c de a p"
| "apply_op d (Op_update i tx c de a p) = update_expense d i tx c de a p"
| "apply_op d (Op_delete i) = delete_expense d i"

definition step :: "db \<Rightarrow> op \<Rightarrow> db" where
  "step d x = (case apply_op d x of Inl e \<Rightarrow> d | Inr d' \<Rightarrow> d')"

definition run :: "db \<Rightarrow> op list \<Rightarrow> db" where
  "run d xs = foldl step d xs"

section \<open>The summary\<close>

text \<open>
  The page computes three figures from the frame \<open>df\<close> that \<open>fetch_expenses\<close> returned,
  and only when that frame is not empty:
  \<^verbatim>\<open>total_spend = df['amount'].sum()\<close>,
  \<^verbatim>\<open>by_category = df.groupby('category', as_index=False)['amount'].sum()
                    .sort_values('amount', ascending=False)\<close> and
  \<^verbatim>\<open>by_month = df.set_index('tx_date').resample('MS')['amount'].sum().reset_index()\<close>.
\<close>

definition total_spend :: "expense list \<Rightarrow> real" where
  "total_spend df = sum_list (map amount df)"

text \<open>
  The amounts are doubles, and an addition of doubles rounds, so that the sum of a column
  depends on the order of its additions. \<open>round64 x\<close> is the double nearest to \<open>x\<close>, a tie
  going to the even significand, for \<open>x\<close> in the range of the normal doubles: \<open>x\<close> is scaled
  by the power of two that brings its magnitude between \<open>2\<^sup>5\<^sup>2\<close> and \<open>2\<^sup>5\<^sup>3\<close>, rounded to an
  integer and scaled back.
\<close>

fun bit_length :: "nat \<Rightarrow> nat" where
  "bit_length n = (if n = 0 then 0 else Suc (bit_length (n div 2)))"

declare bit_length.simps [simp del]

definition pow2 :: "int \<Rightarrow> real" where
  "pow2 e = (if 0 \<le> e then 2 ^ nat e else 1 / 2 ^ nat (- e))"

text \<open>The exponent \<open>e\<close> of a positive number \<open>x\<close>: \<open>2\<^sup>e \<le> x < 2\<^sup>e\<^sup>+\<^sup>1\<close>.\<close>

definition exponent :: "real \<Rightarrow> int" where
  "exponent x = (if 1 \<le> x then int (bit_length (nat \<lfloor>x\<rfloor>)) - 1
                 else - int (bit_length (nat (\<lceil>1 / x\<rceil> - 1))))"

definition round_half_even :: "real \<Rightarrow> int" where
  "round_half_even y =
     (if y - of_int \<lfloor>y\<rfloor> < 1 / 2 then \<lfloor>y\<rfloor>
      else if 1 / 2 < y - of_int \<lfloor>y\<rfloor> then \<lfloor>y\<rfloor> + 1
      else if even \<lfloor>y\<rfloor> then \<lfloor>y\<rfloor> else \<lfloor>y\<rfloor> + 1)"

definition round64 :: "real \<Rightarrow> real" where
  "round64 x =
     (if x = 0 then 0
      else of_int (round_half_even (x / pow2 (exponent \<bar>x\<bar> - 52)))
             * pow2 (exponent \<bar>x\<bar> - 52))"

definition fadd :: "real \<Rightarrow> real \<Rightarrow> real" where
  "fadd x y = round64 (x + y)"

text \<open>
  The summation that pandas applies to a column of doubles is a parameter \<open>summ\<close> of the
  figures below: the order of its additions, and whether it compensates for their
  rounding, depend on the length of the column and on the version of the library.
  \<open>sum_list\<close> is the summation in exact arithmetic, which \<open>total_spend\<close> above is written
  with. \<open>sum_f64\<close> starts from the first entry and adds the others from left to right,
  rounding each addition; numpy adds a column of fewer than eight doubles so, and a
  compensated sum of one or two doubles has the same value.
\<close>

fun sum_f64 :: "real list \<Rightarrow> real" where
  "sum_f64 [] = 0"
| "sum_f64 (x # xs) = foldl fadd x xs"

definition total_spend_with :: "(real list \<Rightarrow> real) \<Rightarrow> expense list \<Rightarrow> real" where
  "total_spend_with summ df = summ (map amount df)"

text \<open>\<open>groupby\<close> sorts the group keys ascending and sums each group.\<close>

definition groupby_sum :: "(real list \<Rightarrow> real) \<Rightarrow> expense list \<Rightarrow> (string \<times> real) list" where
  "groupby_sum summ df =
     map (\<lambda>c. (c, summ (map amount (filter (\<lambda>r. category r = c) df))))
       (sort (remdups (map category df)))"

text \<open>
  \<open>sort_values\<close> is called with its default algorithm, which is not stable: the library
  promises a rearrangement of the rows with the amounts descending, and nothing about
  the order of rows with equal amounts. It is therefore a relation between the frame and
  each result the call may give.
\<close>

definition sort_values_desc :: "(string \<times> real) list \<Rightarrow> (string \<times> real) list \<Rightarrow> bool" where
  "sort_values_desc xs ys \<longleftrightarrow> mset ys = mset xs \<and> sorted_wrt (\<lambda>a b. snd b \<le> snd a) ys"

definition by_category ::
  "(real list \<Rightarrow> real) \<Rightarrow> expense list \<Rightarrow> (string \<times> real) list \<Rightarrow> bool" where
  "by_category summ df out = sort_values_desc (groupby_sum summ df) out"

text \<open>
  \<open>resample('MS')\<close> cuts the time axis into calendar months, from the month of the
  earliest row to the month of the latest, labels each bin with its first day and sums
  the amounts in it; the sum of a bin without rows is 0. Months are counted from year 0.
\<close>

definition month_index :: "date \<Rightarrow> nat" where
  "month_index d = 12 * year d + (month d - 1)"

definition month_start :: "nat \<Rightarrow> date" where
  "month_start i = Date (i div 12) (i mod 12 + 1) 1"

definition by_month :: "expense list \<Rightarrow> (date \<times> real) list" where
  "by_month df =
     (case map (\<lambda>r. month_index (tx_date r)) df of
        [] \<Rightarrow> []
      | m # ms \<Rightarrow>
          map (\<lambda>i. (month_start i,
                     sum_list (map amount (filter (\<lambda>r. month_index (tx_date r) = i) df))))
            [fold min ms m ..< Suc (fold max ms m)])"

text \<open>A \<open>datetime.date\<close> has a month from 1 to 12 and a day from 1 to 31.\<close>

definition valid_date :: "date \<Rightarrow> bool" where
  "valid_date d \<longleftrightarrow> 1 \<le> month d \<and> month d \<le> 12 \<and> 1 \<le> day d \<and> day d \<le> 31"

section \<open>The add form\<close>

text \<open>
  The sidebar form reads the widgets and, when it was submitted, either warns or calls
  \<open>add_expense\<close> with the description stripped of surrounding white space. The events
  are what the run of the form did, in order: the messages it showed and the call it made.
\<close>

definition CATEGORIES :: "string list" where
  "CATEGORIES = [''Food'', ''Transport'', ''Rent'', ''Utilities'', ''Shopping'', ''Health'',
                 ''Education'', ''Entertainment'', ''Other'']"

definition PAYMENT_METHODS :: "string list" where
  "PAYMENT_METHODS = [''Cash'', ''UPI'', ''Card'', ''NetBanking'', ''Other'']"

text \<open>
  A character of a string is a code point below 256. \<open>str.strip()\<close> removes the white
  space of Unicode; these are its code points below 256.
\<close>

definition isspace :: "char \<Rightarrow> bool" where
  "isspace c \<longleftrightarrow>
     c \<in> set [CHR '' '', CHR 0x09, CHR 0x0A, CHR 0x0B, CHR 0x0C, CHR 0x0D,
              CHR 0x1C, CHR 0x1D, CHR 0x1E, CHR 0x1F, CHR 0x85, CHR 0xA0]"

definition strip :: "string \<Rightarrow> string" where
  "strip s = rev (dropWhile isspace (rev (dropWhile isspace s)))"

datatype event =
    Warning string
  | Success string
  | Call_add_expense date string string real string

definition add_expense_form ::
  "db \<Rightarrow> bool \<Rightarrow> date \<Rightarrow> string \<Rightarrow> string \<Rightarrow> real \<Rightarrow> string \<Rightarrow> event list \<times> (error + db)" where
  "add_expense_form d submitted tx_date' category' description' amount' payment_method' =
     (if submitted then
        if amount' \<le> 0 then ([Warning ''Amount must be greater than 0.''], Inr d)
        else
          (case add_expense d tx_date' category' (strip description') amount' payment_method' of
             Inl e \<Rightarrow>
               ([Call_add_expense tx_date' category' (strip description') amount' payment_method'],
                Inl e)
           | Inr d' \<Rightarrow>
               ([Call_add_expense tx_date' category' (strip description') amount' payment_method',
                 Success ''Expense added!''],
                Inr d'))
      else ([], Inr d))"

text \<open>The events of a run that are calls of \<open>add_expense\<close>.\<close>

fun is_call :: "event \<Rightarrow> bool" where
  "is_call (Call_add_expense tx c de a p) = True"
| "is_call (Warning m) = False"
| "is_call (Success m) = False"

section \<open>The wording of the specification\<close>

text \<open>
  The filter as the specification words it: a date passes when it is not before the start
  date and not after the end date, a bound that is not given asking nothing; a category
  passes when no category is asked for, or the one asked for is empty or \<^verbatim>\<open>"All"\<close>, or it is
  the one asked for. This is compared below with the query that \<open>fetch_expenses\<close> builds.
\<close>

definition date_in_range :: "date option \<Rightarrow> date option \<Rightarrow> date \<Rightarrow> bool" where
  "date_in_range A B d =
     ((case A of None \<Rightarrow> True | Some a \<Rightarrow> date_key a \<le> date_key d) \<and>
      (case B of None \<Rightarrow> True | Some b \<Rightarrow> date_key d \<le> date_key b))"

definition category_matches :: "string option \<Rightarrow> string \<Rightarrow> bool" where
  "category_matches k c =
     (case k of None \<Rightarrow> True | Some c' \<Rightarrow> c' = [] \<or> c' = ''All'' \<or> c = c')"

definition matches :: "date option \<Rightarrow> date option \<Rightarrow> string option \<Rightarrow> expense \<Rightarrow> bool" where
  "matches A B k r = (date_in_range A B (tx_date r) \<and> category_matches k (category r))"

text \<open>The conjuncts of a query that compare dates.\<close>

fun is_date :: "clause \<Rightarrow> bool" where
  "is_date (Date_ge a) = True"
| "is_date (Date_le b) = True"
| "is_date (Category_eq c) = False"

text \<open>The ids that some table of a history has held, the first and the last included.\<close>

fun ever_ids :: "db \<Rightarrow> op list \<Rightarrow> int set" where
  "ever_ids d [] = ids d"
| "ever_ids d (x # xs) = ids d \<union> ever_ids (step d x) xs"

text \<open>The sum of the amounts of one category, and of one month, of a frame.\<close>

definition group_total :: "(real list \<Rightarrow> real) \<Rightarrow> expense list \<Rightarrow> string \<Rightarrow> real" where
  "group_total summ df c = summ (map amount (filter (\<lambda>r. category r = c) df))"

definition month_total :: "expense list \<Rightarrow> nat \<Rightarrow> real" where
  "month_total df i = sum_list (map amount (filter (\<lambda>r. month_index (tx_date r) = i) df))"

text \<open>The months, counted from year 0, in which a frame has a row.\<close>

definition occupied :: "expense list \<Rightarrow> nat set" where
  "occupied df = (\<lambda>r. month_index (tx_date r)) ` set df"

section \<open>Sample data\<close>

definition food_jan :: expense where
  "food_jan = \<lparr>id_col = 1, tx_date = Date 2024 1 5, category = ''Food'',
               description = ''lunch'', amount = 100, payment_method = ''UPI''\<rparr>"

definition transport_jan :: expense where
  "transport_jan = \<lparr>id_col = 2, tx_date = Date 2024 1 20, category = ''Transport'',
                    description = ''bus'', amount = 50, payment_method = ''Cash''\<rparr>"

definition food_mar :: expense where
  "food_mar = \<lparr>id_col = 3, tx_date = Date 2024 3 1, category = ''Food'',
               description = [], amount = 25, payment_method = ''Card''\<rparr>"

text \<open>Three amounts as the add form stores them: the doubles for 0.07, 0.04 and 0.18.\<close>

definition small_change :: "expense list" where
  "small_change =
     [\<lparr>id_col = 1, tx_date = Date 2024 1 5, category = ''Food'', description = ''tea'',
       amount = round64 (7 / 100), payment_method = ''Cash''\<rparr>,
      \<lparr>id_col = 2, tx_date = Date 2024 1 5, category = ''Transport'', description = ''toll'',
       amount = round64 (4 / 100), payment_method = ''Cash''\<rparr>,
      \<lparr>id_col = 3, tx_date = Date 2024 1 6, category = ''Food'', description = ''bun'',
       amount = round64 (18 / 100), payment_method = ''Cash''\<rparr>]"

definition sample :: table where
  "sample = \<lparr>rows = [food_jan, transport_jan, food_mar], seq = 3\<rparr>"

section \<open>Basic facts\<close>

lemma fold_max_ge: "(a::int) \<le> fold max xs a"
  by (induction xs arbitrary: a) (auto intro: order_trans[OF max.cobounded2])

lemma fold_max_bounded: "\<forall>x\<in>set xs. x \<le> a \<Longrightarrow> fold max xs (a::int) = a"
  by (induction xs arbitrary: a) (auto simp: max_def)

lemma largest_rowid_ok: "table_ok t \<Longrightarrow> largest_rowid t = seq t"
  unfolding table_ok_def largest_rowid_def
  by (rule fold_max_bounded) (auto simp: list_all_iff)

lemma mset_order_by_desc: "mset (order_by_desc rs) = mset rs"
  by (simp add: order_by_desc_def)

lemma set_order_by_desc: "set (order_by_desc rs) = set rs"
  by (simp add: order_by_desc_def)

lemma length_order_by_desc: "length (order_by_desc rs) = length rs"
  by (simp add: order_by_desc_def)

lemma select_where_Nil: "select_where [] rs = rs"
  by (simp add: select_where_def)

lemma build_query_None: "build_query None None None = []"
  by (simp add: build_query_def)

lemma fetch_all: "fetch_expenses (Some t) None None None = Inr (order_by_desc (rows t))"
  by (simp add: fetch_expenses_def build_query_None select_where_Nil)

lemma distinct_ids_filter_le1:
  "distinct (map id_col rs) \<Longrightarrow> length (filter (\<lambda>r. id_col r = i) rs) \<le> 1"
  by (induction rs) (auto simp: filter_empty_conv image_iff)

lemma delete_expense_Some:
  "delete_expense (Some t) i =
     (if int64 i then Inr (Some (t\<lparr>rows := filter (\<lambda>r. id_col r \<noteq> i) (rows t)\<rparr>))
      else Inl OverflowError)"
  by (simp add: delete_expense_def)

lemma update_expense_Some:
  "update_expense (Some t) i tx c de a p =
     (if int64 i
      then Inr (Some (t\<lparr>rows := map (\<lambda>r. if id_col r = i
                 then r\<lparr>tx_date := tx, category := c, description := de, amount := a,
                        payment_method := p\<rparr>
                 else r) (rows t)\<rparr>))
      else Inl OverflowError)"
  by (simp add: update_expense_def)

lemma int64_small: "int64 1" "int64 2" "int64 9"
  by (simp_all add: int64_def MIN_ROWID_def MAX_ROWID_def)

lemma not_int64_big: "\<not> int64 9223372036854775808"
  by (simp add: int64_def MIN_ROWID_def MAX_ROWID_def)

lemma table_ok_sample: "table_ok sample"
  by (simp add: table_ok_def sample_def food_jan_def transport_jan_def food_mar_def)

section \<open>The add form rejects an amount that is not positive\<close>

text \<open>
  Claim C9. When the add form is submitted with an amount less than or equal to 0, the
  run shows the warning and nothing else, makes no call of \<open>add_expense\<close>, and leaves
  the database exactly as it was, so that a later listing shows what it showed before.
\<close>

theorem add_form_rejects:
  assumes "amt \<le> 0"
  shows "fst (add_expense_form d True tx c de amt pm) = [Warning ''Amount must be greater than 0.'']
       \<and> list_all (\<lambda>e. \<not> is_call e) (fst (add_expense_form d True tx c de amt pm))
       \<and> snd (add_expense_form d True tx c de amt pm) = Inr d"
  using assms by (simp add: add_expense_form_def)

theorem add_form_rejects_witness:
  "(0::real) \<le> 0
   \<and> fst (add_expense_form (Some sample) True (Date 2024 4 2) ''Rent'' ''april'' 0 ''UPI'')
       = [Warning ''Amount must be greater than 0.'']
   \<and> snd (add_expense_form (Some sample) True (Date 2024 4 2) ''Rent'' ''april'' 0 ''UPI'')
       = Inr (Some sample)"
  using add_form_rejects [of 0 "Some sample" "Date 2024 4 2" "''Rent''" "''april''" "''UPI''"]
  by simp

section \<open>Delete and update leave the other rows alone\<close>

text \<open>
  Claim C10. On every table and for every id, the table after a call of \<open>delete_expense\<close>
  or of \<open>update_expense\<close> (the table as it was, when the call raised) has the rows whose
  id differs from the given one unchanged: the same rows, with the same fields and in the
  same order. \<open>update_expense\<close> changes no id, and neither changes the \<open>sqlite_sequence\<close>
  entry. For an id in the 64-bit range both calls succeed; for any other id both raise
  \<open>OverflowError\<close>. As ids are unique, at most one row has the given id.
\<close>

theorem delete_update_frame:
  "\<exists>t1 t2. step (Some t) (Op_delete i) = Some t1
     \<and> step (Some t) (Op_update i tx c de a p) = Some t2
     \<and> filter (\<lambda>r. id_col r \<noteq> i) (rows t1) = filter (\<lambda>r. id_col r \<noteq> i) (rows t)
     \<and> filter (\<lambda>r. id_col r \<noteq> i) (rows t2) = filter (\<lambda>r. id_col r \<noteq> i) (rows t)
     \<and> map id_col (rows t2) = map id_col (rows t)
     \<and> seq t1 = seq t \<and> seq t2 = seq t
     \<and> (int64 i \<longrightarrow> delete_expense (Some t) i = Inr (Some t1)
                     \<and> update_expense (Some t) i tx c de a p = Inr (Some t2))
     \<and> (\<not> int64 i \<longrightarrow> delete_expense (Some t) i = Inl OverflowError
                     \<and> update_expense (Some t) i tx c de a p = Inl OverflowError)
     \<and> (table_ok t \<longrightarrow> length (filter (\<lambda>r. id_col r = i) (rows t)) \<le> 1)"
proof -
  let ?f = "\<lambda>r. if id_col r = i
                 then r\<lparr>tx_date := tx, category := c, description := de, amount := a,
                        payment_method := p\<rparr>
                 else r"
  have others: "filter (\<lambda>r. id_col r \<noteq> i) (map ?f rs) = filter (\<lambda>r. id_col r \<noteq> i) rs" for rs
    by (induction rs) auto
  have same_ids: "map id_col (map ?f rs) = map id_col rs" for rs
    by (induction rs) auto
  have one: "table_ok t \<longrightarrow> length (filter (\<lambda>r. id_col r = i) (rows t)) \<le> 1"
    using distinct_ids_filter_le1 [of "rows t" i] by (simp add: table_ok_def)
  show ?thesis
  proof (cases "int64 i")
    case True
    then show ?thesis
      unfolding step_def apply_op.simps delete_expense_Some update_expense_Some
      using others [of "rows t"] same_ids [of "rows t"] one by simp
  next
    case False
    then show ?thesis
      unfolding step_def apply_op.simps delete_expense_Some update_expense_Some
      using one by simp
  qed
qed

theorem delete_update_frame_witness:
  "table_ok sample \<and> int64 2 \<and> \<not> int64 9223372036854775808
   \<and> (\<exists>t1 t2. delete_expense (Some sample) 2 = Inr (Some t1)
        \<and> update_expense (Some sample) 2 (Date 2024 2 2) ''Rent'' ''x'' 7 ''Card'' = Inr (Some t2)
        \<and> filter (\<lambda>r. id_col r \<noteq> 2) (rows t1) = [food_jan, food_mar]
        \<and> filter (\<lambda>r. id_col r \<noteq> 2) (rows t2) = [food_jan, food_mar]
        \<and> length (filter (\<lambda>r. id_col r = 2) (rows sample)) \<le> 1)
   \<and> delete_expense (Some sample) 9223372036854775808 = Inl OverflowError
   \<and> step (Some sample) (Op_delete 9223372036854775808) = Some sample"
proof -
  have "filter (\<lambda>r. id_col r \<noteq> 2) (rows sample) = [food_jan, food_mar]"
    by (simp add: sample_def food_jan_def transport_jan_def food_mar_def)
  moreover have "step (Some sample) (Op_delete 9223372036854775808) = Some sample"
    by (simp add: step_def delete_expense_Some not_int64_big)
  ultimately show ?thesis
    using delete_update_frame [of sample 2 "Date 2024 2 2" "''Rent''" "''x''" 7 "''Card''"]
      delete_update_frame [of sample 9223372036854775808 "Date 2024 2 2" "''Rent''" "''x''" 7
        "''Card''"]
      table_ok_sample int64_small(2) not_int64_big
    by auto
qed

section \<open>Facts about the listing\<close>

text \<open>The query that \<open>fetch_expenses\<close> builds selects the rows that the filter lets pass.\<close>

lemma holds_build_query:
  "list_all (\<lambda>c. holds c r) (build_query A B k) = matches A B k r"
  by (auto simp: build_query_def matches_def date_in_range_def category_matches_def
      split: option.splits)

lemma select_where_matches:
  "select_where (build_query A B k) rs = filter (matches A B k) rs"
  by (simp add: select_where_def holds_build_query)

lemma fetch_expenses_Some:
  "fetch_expenses (Some t) A B k = Inr (order_by_desc (filter (matches A B k) (rows t)))"
  by (simp add: fetch_expenses_def select_where_matches)

lemma order_by_desc_sorted:
  "sorted_wrt (\<lambda>r s. order_key s \<le> order_key r) (order_by_desc rs)"
proof -
  have "sorted (map order_key (sort_key order_key rs))" by simp
  then have "sorted_wrt (\<lambda>r s. order_key r \<le> order_key s) (sort_key order_key rs)"
    by (simp add: sorted_wrt_map)
  then show ?thesis
    by (simp add: order_by_desc_def sorted_wrt_rev)
qed

lemma sorted_wrt_desc_strict:
  fixes f :: "'a \<Rightarrow> 'b::linorder"
  shows "sorted_wrt (\<lambda>r s. f s \<le> f r) xs \<Longrightarrow> distinct (map f xs)
    \<Longrightarrow> sorted_wrt (\<lambda>r s. f s < f r) xs"
  by (induction xs) (auto simp: less_le intro: rev_image_eqI)

lemma distinct_ids_order_by_desc:
  "distinct (map id_col rs) \<Longrightarrow> distinct (map id_col (order_by_desc rs))"
  by (metis distinct_map mset_order_by_desc mset_eq_imp_distinct_iff set_order_by_desc)

lemma order_by_desc_sorted_strict:
  assumes "distinct (map id_col rs)"
  shows "sorted_wrt (\<lambda>r s. order_key s < order_key r) (order_by_desc rs)"
proof -
  have "distinct (map id_col (order_by_desc rs))"
    using assms by (rule distinct_ids_order_by_desc)
  then have "distinct (map order_key (order_by_desc rs))"
    by (simp add: distinct_map inj_on_def order_key_def)
  with order_by_desc_sorted [of rs] show ?thesis
    by (rule sorted_wrt_desc_strict)
qed


text \<open>The listings of the sample table.\<close>

lemmas sample_defs = sample_def food_jan_def transport_jan_def food_mar_def

lemma fetch_sample_all:
  "fetch_expenses (Some sample) None None None = Inr [food_mar, transport_jan, food_jan]"
  by (simp add: fetch_all order_by_desc_def order_key_def date_key_def sample_defs)

lemma fetch_sample_jan:
  "fetch_expenses (Some sample) (Some (Date 2024 1 1)) (Some (Date 2024 1 31)) None
     = Inr [transport_jan, food_jan]"
  by (simp add: fetch_expenses_def build_query_def select_where_def order_by_desc_def
      order_key_def date_key_def sample_defs)


section \<open>The date range of a listing\<close>

text \<open>
  Claim C5. On a table that exists, \<open>fetch_expenses\<close> returns exactly the stored rows,
  each as often as it is stored, whose date is not before the start date and not after
  the end date, both bounds included, and whose category passes the category filter.
  With bounds \<open>a\<close> and \<open>b\<close> and no category these are the rows with \<open>a \<le> d \<le> b\<close>; without
  a start date they are the rows with \<open>d \<le> b\<close>, without an end date the rows with
  \<open>a \<le> d\<close>. A bound that is given adds its one comparison to the query, and a query
  built without bounds holds no comparison of dates at all.
\<close>

theorem fetch_date_range:
  "\<exists>rs. fetch_expenses (Some t) A B k = Inr rs
     \<and> mset rs = filter_mset (\<lambda>r. date_in_range A B (tx_date r)
                               \<and> category_matches k (category r)) (mset (rows t))
     \<and> (A = Some a \<and> B = Some b \<and> k = None \<longrightarrow>
          set rs = {r \<in> set (rows t). date_key a \<le> date_key (tx_date r)
                                     \<and> date_key (tx_date r) \<le> date_key b})
     \<and> (A = None \<and> B = Some b \<and> k = None \<longrightarrow>
          set rs = {r \<in> set (rows t). date_key (tx_date r) \<le> date_key b})
     \<and> (A = Some a \<and> B = None \<and> k = None \<longrightarrow>
          set rs = {r \<in> set (rows t). date_key a \<le> date_key (tx_date r)})
     \<and> build_query (Some a) (Some b) k = Date_ge a # Date_le b # build_query None None k
     \<and> build_query None (Some b) k = Date_le b # build_query None None k
     \<and> build_query (Some a) None k = Date_ge a # build_query None None k
     \<and> list_all (\<lambda>c. \<not> is_date c) (build_query None None k)"
proof -
  let ?rs = "order_by_desc (filter (matches A B k) (rows t))"
  have m: "mset ?rs
      = filter_mset (\<lambda>r. date_in_range A B (tx_date r)
                               \<and> category_matches k (category r)) (mset (rows t))"
    by (simp add: mset_order_by_desc matches_def)
  have s: "set ?rs = {r \<in> set (rows t). matches A B k r}"
    by (simp add: set_order_by_desc)
  have s1: "A = Some a \<and> B = Some b \<and> k = None \<longrightarrow>
          set ?rs = {r \<in> set (rows t). date_key a \<le> date_key (tx_date r)
                                     \<and> date_key (tx_date r) \<le> date_key b}"
    unfolding s by (simp add: matches_def date_in_range_def category_matches_def)
  have s2: "A = None \<and> B = Some b \<and> k = None \<longrightarrow>
          set ?rs = {r \<in> set (rows t). date_key (tx_date r) \<le> date_key b}"
    unfolding s by (simp add: matches_def date_in_range_def category_matches_def)
  have s3: "A = Some a \<and> B = None \<and> k = None \<longrightarrow>
          set ?rs = {r \<in> set (rows t). date_key a \<le> date_key (tx_date r)}"
    unfolding s by (simp add: matches_def date_in_range_def category_matches_def)
  have q1: "build_query (Some a) (Some b) k = Date_ge a # Date_le b # build_query None None k"
    by (simp add: build_query_def)
  have q2: "build_query None (Some b) k = Date_le b # build_query None None k"
    by (simp add: build_query_def)
  have q3: "build_query (Some a) None k = Date_ge a # build_query None None k"
    by (simp add: build_query_def)
  have q: "list_all (\<lambda>c. \<not> is_date c) (build_query None None k)"
    by (simp add: build_query_def split: option.splits)
  show ?thesis
    unfolding fetch_expenses_Some
    using m s1 s2 s3 q1 q2 q3 q by blast
qed

theorem fetch_date_range_witness:
  "(\<exists>rs. fetch_expenses (Some sample) (Some (Date 2024 1 1)) (Some (Date 2024 1 31)) None = Inr rs
      \<and> set rs = {r \<in> set (rows sample). date_key (Date 2024 1 1) \<le> date_key (tx_date r)
                                     \<and> date_key (tx_date r) \<le> date_key (Date 2024 1 31)}
      \<and> rs = [transport_jan, food_jan])
   \<and> (\<exists>rs. fetch_expenses (Some sample) None (Some (Date 2024 1 31)) None = Inr rs
      \<and> set rs = {r \<in> set (rows sample). date_key (tx_date r) \<le> date_key (Date 2024 1 31)})
   \<and> (\<exists>rs. fetch_expenses (Some sample) (Some (Date 2024 1 6)) None None = Inr rs
      \<and> set rs = {r \<in> set (rows sample). date_key (Date 2024 1 6) \<le> date_key (tx_date r)})"
  using fetch_date_range [of sample "Some (Date 2024 1 1)" "Some (Date 2024 1 31)" None
      "Date 2024 1 1" "Date 2024 1 31"]
    fetch_date_range [of sample None "Some (Date 2024 1 31)" None "Date 2024 1 1" "Date 2024 1 31"]
    fetch_date_range [of sample "Some (Date 2024 1 6)" None None "Date 2024 1 6" "Date 2024 1 31"]
    fetch_sample_jan
  by auto

section \<open>The order of a listing\<close>

text \<open>
  Claim C6. For every combination of filters the listing is sorted by date descending
  and, among rows of one date, by id descending (strictly, as ids are unique); and when
  no stored row passes the filter the listing is the empty sequence, not an error.
\<close>

theorem fetch_sorted:
  "\<exists>rs. fetch_expenses (Some t) A B k = Inr rs
     \<and> sorted_wrt (\<lambda>r s. date_key (tx_date s) < date_key (tx_date r)
                      \<or> (date_key (tx_date s) = date_key (tx_date r) \<and> id_col s \<le> id_col r)) rs
     \<and> (table_ok t \<longrightarrow>
          sorted_wrt (\<lambda>r s. date_key (tx_date s) < date_key (tx_date r)
                      \<or> (date_key (tx_date s) = date_key (tx_date r) \<and> id_col s < id_col r)) rs)
     \<and> (list_all (\<lambda>r. \<not> matches A B k r) (rows t) \<longrightarrow> rs = [])"
proof -
  let ?rs = "order_by_desc (filter (matches A B k) (rows t))"
  have le: "(order_key s \<le> order_key r) =
      (date_key (tx_date s) < date_key (tx_date r)
        \<or> (date_key (tx_date s) = date_key (tx_date r) \<and> id_col s \<le> id_col r))" for r s
    by (auto simp: order_key_def)
  have less: "(order_key s < order_key r) =
      (date_key (tx_date s) < date_key (tx_date r)
        \<or> (date_key (tx_date s) = date_key (tx_date r) \<and> id_col s < id_col r))" for r s
    by (auto simp: order_key_def)
  have 1: "sorted_wrt (\<lambda>r s. date_key (tx_date s) < date_key (tx_date r)
                      \<or> (date_key (tx_date s) = date_key (tx_date r) \<and> id_col s \<le> id_col r)) ?rs"
    using order_by_desc_sorted [of "filter (matches A B k) (rows t)"] by (simp add: le)
  have 2: "sorted_wrt (\<lambda>r s. date_key (tx_date s) < date_key (tx_date r)
                      \<or> (date_key (tx_date s) = date_key (tx_date r) \<and> id_col s < id_col r)) ?rs"
    if "table_ok t"
  proof -
    have "distinct (map id_col (filter (matches A B k) (rows t)))"
      using that by (simp add: table_ok_def distinct_map_filter)
    from order_by_desc_sorted_strict [OF this] show ?thesis by (simp add: less)
  qed
  have 3: "?rs = []" if "list_all (\<lambda>r. \<not> matches A B k r) (rows t)"
  proof -
    have "filter (matches A B k) (rows t) = []"
      using that by (simp add: filter_empty_conv list_all_iff)
    then show ?thesis by (simp add: order_by_desc_def)
  qed
  show ?thesis
    unfolding fetch_expenses_Some using 1 2 3 by blast
qed

theorem fetch_sorted_witness:
  "table_ok sample
   \<and> (\<exists>rs. fetch_expenses (Some sample) None None None = Inr rs
        \<and> rs = [food_mar, transport_jan, food_jan]
        \<and> sorted_wrt (\<lambda>r s. date_key (tx_date s) < date_key (tx_date r)
              \<or> (date_key (tx_date s) = date_key (tx_date r) \<and> id_col s < id_col r)) rs)
   \<and> list_all (\<lambda>r. \<not> matches None None (Some ''Rent'') r) (rows sample)
   \<and> fetch_expenses (Some sample) None None (Some ''Rent'') = Inr []"
proof -
  have no_rent: "list_all (\<lambda>r. \<not> matches None None (Some ''Rent'') r) (rows sample)"
    by (simp add: matches_def category_matches_def sample_defs)
  show ?thesis
    using fetch_sorted [of sample None None None]
      fetch_sorted [of sample None None "Some ''Rent''"]
      table_ok_sample fetch_sample_all no_rent
    by auto
qed

section \<open>The total of a listing\<close>



section \<open>Update, then list\<close>

text \<open>
  For an id in the 64-bit range \<open>update_expense\<close> on a table that exists does not fail
  and leaves the set of ids as it was. In the listing that follows, every row with the
  given id carries that id and the five supplied values; when the id was present there is
  such a row, and exactly one as ids are unique. When the id was not present the table
  is unchanged.
\<close>

lemma update_in_range:
  assumes range: "int64 i"
  shows "\<exists>d'. update_expense (Some t) i tx c de a p = Inr d'
       \<and> ids d' = ids (Some t)
       \<and> (i \<notin> ids (Some t) \<longrightarrow> d' = Some t)
     \<and> (\<exists>rs. fetch_expenses d' None None None = Inr rs
          \<and> id_col ` set rs = ids (Some t)
          \<and> list_all (\<lambda>r. id_col r = i \<longrightarrow>
                r = \<lparr>id_col = i, tx_date = tx, category = c, description = de, amount = a,
                     payment_method = p\<rparr>) rs
          \<and> (i \<in> ids (Some t) \<longrightarrow>
                \<lparr>id_col = i, tx_date = tx, category = c, description = de, amount = a,
                 payment_method = p\<rparr> \<in> set rs)
          \<and> (table_ok t \<and> i \<in> ids (Some t) \<longrightarrow>
                length (filter (\<lambda>r. id_col r = i) rs) = 1))"
proof -
  define new where "new = \<lparr>id_col = i, tx_date = tx, category = c, description = de,
                           amount = a, payment_method = p\<rparr>"
  define f :: "expense \<Rightarrow> expense" where "f = (\<lambda>r. if id_col r = i
                 then r\<lparr>tx_date := tx, category := c, description := de, amount := a,
                        payment_method := p\<rparr>
                 else r)"
  define rs where "rs = order_by_desc (map f (rows t))"
  have upd: "update_expense (Some t) i tx c de a p = Inr (Some (t\<lparr>rows := map f (rows t)\<rparr>))"
    using range by (simp add: update_expense_def f_def)
  have fetch: "fetch_expenses (Some (t\<lparr>rows := map f (rows t)\<rparr>)) None None None = Inr rs"
    by (simp add: fetch_all rs_def)
  have hit: "f r = new" if "id_col r = i" for r
    using that by (cases r) (simp add: f_def new_def)
  have miss: "f r = r" if "id_col r \<noteq> i" for r
    using that by (simp add: f_def)
  have id_f: "id_col (f r) = id_col r" for r
    by (simp add: f_def)
  have same_ids: "map id_col (map f (rows t)) = map id_col (rows t)"
    by (simp add: id_f)
  have set_rs: "set rs = f ` set (rows t)"
    by (simp add: rs_def set_order_by_desc)
  have ids: "ids (Some (t\<lparr>rows := map f (rows t)\<rparr>)) = ids (Some t)"
    by (simp add: ids_def id_f)
  have ids_rs: "id_col ` set rs = ids (Some t)"
    by (simp add: set_rs ids_def image_image id_f)
  have noop: "Some (t\<lparr>rows := map f (rows t)\<rparr>) = Some t" if "i \<notin> ids (Some t)"
  proof -
    have "map f (rows t) = rows t"
    proof (rule map_idI)
      fix r assume "r \<in> set (rows t)"
      with that have "id_col r \<noteq> i" by (auto simp: ids_def)
      then show "f r = r" by (rule miss)
    qed
    then show ?thesis by simp
  qed
  have all: "list_all (\<lambda>r. id_col r = i \<longrightarrow> r = new) rs"
    unfolding list_all_iff set_rs
  proof (intro ballI impI)
    fix r assume "r \<in> f ` set (rows t)" and r: "id_col r = i"
    then obtain x where x: "r = f x" by blast
    with r have "id_col x = i" by (simp add: id_f)
    then show "r = new" unfolding x by (rule hit)
  qed
  have mem: "new \<in> set rs" if "i \<in> ids (Some t)"
  proof -
    from that obtain r where r: "r \<in> set (rows t)" "id_col r = i" by (auto simp: ids_def)
    have "f r \<in> f ` set (rows t)" using r(1) by (rule imageI)
    then show ?thesis unfolding hit [OF r(2)] set_rs .
  qed
  have one: "length (filter (\<lambda>r. id_col r = i) rs) = 1"
    if "table_ok t \<and> i \<in> ids (Some t)"
  proof -
    have "distinct (map id_col (map f (rows t)))"
      using that unfolding same_ids by (simp add: table_ok_def)
    then have "distinct (map id_col rs)"
      unfolding rs_def by (rule distinct_ids_order_by_desc)
    then have le: "length (filter (\<lambda>r. id_col r = i) rs) \<le> 1"
      by (rule distinct_ids_filter_le1)
    have "new \<in> set rs" using mem that by blast
    moreover have "id_col new = i" by (simp add: new_def)
    ultimately have "filter (\<lambda>r. id_col r = i) rs \<noteq> []"
      unfolding filter_empty_conv by blast
    then have "0 < length (filter (\<lambda>r. id_col r = i) rs)" by simp
    with le show ?thesis by linarith
  qed
  have inner: "\<exists>rs. fetch_expenses (Some (t\<lparr>rows := map f (rows t)\<rparr>)) None None None = Inr rs
          \<and> id_col ` set rs = ids (Some t)
          \<and> list_all (\<lambda>r. id_col r = i \<longrightarrow> r = new) rs
          \<and> (i \<in> ids (Some t) \<longrightarrow> new \<in> set rs)
          \<and> (table_ok t \<and> i \<in> ids (Some t) \<longrightarrow>
                length (filter (\<lambda>r. id_col r = i) rs) = 1)"
    using fetch ids_rs all mem one by blast
  show ?thesis
    using upd ids noop inner unfolding new_def by blast
qed

text \<open>
  Claim C4, as stated, fails for an id that is not present because it does not fit 64
  bits: the call raises \<open>OverflowError\<close>.
\<close>

theorem update_overflow_counterexample:
  "9223372036854775808 \<notin> ids (Some sample)
   \<and> update_expense (Some sample) 9223372036854775808 (Date 2024 2 2) ''Rent'' ''feb'' 700 ''Card''
        = Inl OverflowError"
  by (simp add: update_expense_Some not_int64_big ids_def sample_defs)

text \<open>
  Claim C4, amended. For every record present in the store whose id is in the signed
  64-bit range (as every id that SQLite holds is), \<open>update_expense\<close> followed by a listing
  returns that record with all five mutable fields replaced by the supplied values and
  with the same id as before. \<open>update_expense\<close> with an id in that range that is not
  present in the store changes nothing and raises no error; with an id outside that
  range it raises \<open>OverflowError\<close>, and the store stays as it was.
\<close>

theorem update_then_list:
  "(int64 i \<longrightarrow>
      (\<exists>d'. update_expense (Some t) i tx c de a p = Inr d'
         \<and> ids d' = ids (Some t)
         \<and> (i \<notin> ids (Some t) \<longrightarrow> d' = Some t)
         \<and> (\<exists>rs. fetch_expenses d' None None None = Inr rs
              \<and> id_col ` set rs = ids (Some t)
              \<and> list_all (\<lambda>r. id_col r = i \<longrightarrow>
                    r = \<lparr>id_col = i, tx_date = tx, category = c, description = de, amount = a,
                         payment_method = p\<rparr>) rs
              \<and> (i \<in> ids (Some t) \<longrightarrow>
                    \<lparr>id_col = i, tx_date = tx, category = c, description = de, amount = a,
                     payment_method = p\<rparr> \<in> set rs)
              \<and> (table_ok t \<and> i \<in> ids (Some t) \<longrightarrow>
                    length (filter (\<lambda>r. id_col r = i) rs) = 1))))
   \<and> (\<not> int64 i \<longrightarrow>
        update_expense (Some t) i tx c de a p = Inl OverflowError
        \<and> step (Some t) (Op_update i tx c de a p) = Some t)"
proof (intro conjI impI)
  assume "int64 i"
  then show "\<exists>d'. update_expense (Some t) i tx c de a p = Inr d'
         \<and> ids d' = ids (Some t)
         \<and> (i \<notin> ids (Some t) \<longrightarrow> d' = Some t)
         \<and> (\<exists>rs. fetch_expenses d' None None None = Inr rs
              \<and> id_col ` set rs = ids (Some t)
              \<and> list_all (\<lambda>r. id_col r = i \<longrightarrow>
                    r = \<lparr>id_col = i, tx_date = tx, category = c, description = de, amount = a,
                         payment_method = p\<rparr>) rs
              \<and> (i \<in> ids (Some t) \<longrightarrow>
                    \<lparr>id_col = i, tx_date = tx, category = c, description = de, amount = a,
                     payment_method = p\<rparr> \<in> set rs)
              \<and> (table_ok t \<and> i \<in> ids (Some t) \<longrightarrow>
                    length (filter (\<lambda>r. id_col r = i) rs) = 1))"
    by (rule update_in_range)
next
  assume "\<not> int64 i"
  then show "update_expense (Some t) i tx c de a p = Inl OverflowError"
    by (simp add: update_expense_Some)
next
  assume "\<not> int64 i"
  then show "step (Some t) (Op_update i tx c de a p) = Some t"
    by (simp add: step_def update_expense_Some)
qed

theorem update_then_list_witness:
  "table_ok sample \<and> 2 \<in> ids (Some sample) \<and> 9 \<notin> ids (Some sample)
   \<and> int64 2 \<and> int64 9 \<and> \<not> int64 9223372036854775808
   \<and> (\<exists>d' rs. update_expense (Some sample) 2 (Date 2024 2 2) ''Rent'' ''feb'' 700 ''Card'' = Inr d'
        \<and> fetch_expenses d' None None None = Inr rs
        \<and> \<lparr>id_col = 2, tx_date = Date 2024 2 2, category = ''Rent'', description = ''feb'',
            amount = 700, payment_method = ''Card''\<rparr> \<in> set rs
        \<and> length (filter (\<lambda>r. id_col r = 2) rs) = 1)
   \<and> update_expense (Some sample) 9 (Date 2024 2 2) ''Rent'' ''feb'' 700 ''Card''
        = Inr (Some sample)
   \<and> step (Some sample) (Op_update 9223372036854775808 (Date 2024 2 2) ''Rent'' ''feb'' 700 ''Card'')
        = Some sample"
proof -
  have m: "2 \<in> ids (Some sample)" "9 \<notin> ids (Some sample)"
    by (simp_all add: ids_def sample_defs)
  show ?thesis
    using update_then_list [of 2 sample "Date 2024 2 2" "''Rent''" "''feb''" 700 "''Card''"]
      update_then_list [of 9 sample "Date 2024 2 2" "''Rent''" "''feb''" 700 "''Card''"]
      update_then_list [of 9223372036854775808 sample "Date 2024 2 2" "''Rent''" "''feb''" 700
        "''Card''"]
      table_ok_sample m int64_small not_int64_big
    by (auto simp del: ex_simps)
qed

section \<open>Facts about histories\<close>

lemma run_Nil: "run d [] = d"
  by (simp add: run_def)

lemma run_Cons: "run d (x # xs) = run (step d x) xs"
  by (simp add: run_def)

lemma add_expense_ok:
  assumes "table_ok t" "seq t < MAX_ROWID"
  shows "add_expense (Some t) tx c de a p =
     Inr (Some \<lparr>rows = rows t @ [\<lparr>id_col = seq t + 1, tx_date = tx, category = c,
                                  description = de, amount = a, payment_method = p\<rparr>],
               seq = seq t + 1\<rparr>)"
  using assms by (simp add: add_expense_def largest_rowid_ok)

lemma table_ok_add:
  assumes "table_ok t"
  shows "table_ok \<lparr>rows = rows t @ [\<lparr>id_col = seq t + 1, tx_date = tx, category = c,
                                  description = de, amount = a, payment_method = p\<rparr>],
               seq = seq t + 1\<rparr>"
  using assms by (fastforce simp: table_ok_def list_all_iff)

lemma table_ok_delete:
  assumes "table_ok t"
  shows "table_ok (t\<lparr>rows := filter P (rows t)\<rparr>)"
  using assms by (simp add: table_ok_def list_all_iff distinct_map_filter)

lemma table_ok_update:
  assumes "table_ok t" "\<And>r. id_col (f r) = id_col r"
  shows "table_ok (t\<lparr>rows := map f (rows t)\<rparr>)"
  using assms by (simp add: table_ok_def list_all_iff comp_def)

text \<open>What one statement does to a table that exists.\<close>

lemma step_Some:
  assumes "table_ok t"
  shows "\<exists>t'. step (Some t) x = Some t' \<and> table_ok t' \<and> seq t \<le> seq t'
           \<and> ids (Some t') \<subseteq> ids (Some t) \<union> {j. seq t < j}"
proof (cases x)
  case Op_init
  with assms show ?thesis by (simp add: step_def init_db_def)
next
  case (Op_add tx c de a p)
  show ?thesis
  proof (cases "seq t < MAX_ROWID")
    case True
    from add_expense_ok [OF assms True] table_ok_add [OF assms]
    show ?thesis by (simp add: Op_add step_def ids_def) 
  next
    case False
    then have "add_expense (Some t) tx c de a p = Inl DatabaseFull"
      using assms by (simp add: add_expense_def largest_rowid_ok)
    with assms show ?thesis by (simp add: Op_add step_def)
  qed
next
  case (Op_update i tx c de a p)
  have "table_ok (t\<lparr>rows := map (\<lambda>r. if id_col r = i
                 then r\<lparr>tx_date := tx, category := c, description := de, amount := a,
                        payment_method := p\<rparr>
                 else r) (rows t)\<rparr>)"
    using assms by (rule table_ok_update) simp
  with assms show ?thesis
    by (auto simp: Op_update step_def update_expense_Some ids_def)
next
  case (Op_delete i)
  from table_ok_delete [OF assms] assms
  show ?thesis by (auto simp: Op_delete step_def delete_expense_Some ids_def)
qed

lemma step_None: "step None x = None \<or> step None x = Some \<lparr>rows = [], seq = 0\<rparr>"
  by (cases x)
    (simp_all add: step_def init_db_def add_expense_def update_expense_def delete_expense_def)

lemma table_ok_empty: "table_ok \<lparr>rows = [], seq = 0\<rparr>"
  by (simp add: table_ok_def)

lemma db_ok_step: "db_ok d \<Longrightarrow> db_ok (step d x)"
proof (cases d)
  case None
  then show ?thesis using step_None [of x] table_ok_empty by (auto simp: db_ok_def)
next
  case (Some t)
  assume "db_ok d"
  with Some have "table_ok t" by (simp add: db_ok_def)
  from step_Some [OF this, of x] Some show ?thesis by (auto simp: db_ok_def)
qed

lemma db_ok_run: "db_ok d \<Longrightarrow> db_ok (run d xs)"
  by (induction xs arbitrary: d) (simp_all add: run_Nil run_Cons db_ok_step)

lemma ids_le_seq: "table_ok t \<Longrightarrow> j \<in> ids (Some t) \<Longrightarrow> j \<le> seq t"
  by (auto simp: table_ok_def ids_def list_all_iff)

lemma ids_run_ever: "ids (run d xs) \<subseteq> ever_ids d xs"
  by (induction xs arbitrary: d) (auto simp: run_Nil run_Cons)

lemma seq_mono_run:
  "table_ok t \<Longrightarrow> run (Some t) xs = Some u \<Longrightarrow> seq t \<le> seq u"
proof (induction xs arbitrary: t)
  case Nil
  then show ?case by (simp add: run_Nil)
next
  case (Cons x xs)
  from step_Some [OF Cons.prems(1), of x] obtain t1 where
    t1: "step (Some t) x = Some t1" "table_ok t1" "seq t \<le> seq t1" by auto
  have "run (Some t1) xs = Some u" using Cons.prems(2) t1(1) by (simp add: run_Cons)
  from Cons.IH [OF t1(2) this] t1(3) show ?case by simp
qed

text \<open>Every id a history has shown is at most the final \<open>sqlite_sequence\<close> entry.\<close>

lemma ever_ids_le_seq:
  "db_ok d \<Longrightarrow> run d xs = Some t \<Longrightarrow> j \<in> ever_ids d xs \<Longrightarrow> j \<le> seq t"
proof (induction xs arbitrary: d)
  case Nil
  then show ?case by (simp add: run_Nil db_ok_def ids_le_seq)
next
  case (Cons x xs)
  have ok': "db_ok (step d x)" using Cons.prems(1) by (rule db_ok_step)
  have run': "run (step d x) xs = Some t" using Cons.prems(2) by (simp add: run_Cons)
  from Cons.prems(3) consider "j \<in> ids d" | "j \<in> ever_ids (step d x) xs" by auto
  then show ?case
  proof cases
    case 1
    then obtain t0 where d: "d = Some t0" by (cases d) (auto simp: ids_def)
    with Cons.prems(1) have ok0: "table_ok t0" by (simp add: db_ok_def)
    have "j \<le> seq t0" using ok0 1 d by (simp add: ids_le_seq)
    moreover have "seq t0 \<le> seq t"
      using seq_mono_run [OF ok0, of "x # xs" t] Cons.prems(2) d by simp
    ultimately show ?thesis by simp
  next
    case 2
    from Cons.IH [OF ok' run' 2] show ?thesis .
  qed
qed

text \<open>An id that is absent and at most the \<open>sqlite_sequence\<close> entry never comes (back).\<close>

lemma absent_stays:
  "table_ok t \<Longrightarrow> i \<le> seq t \<Longrightarrow> i \<notin> ids (Some t)
     \<Longrightarrow> \<exists>t'. run (Some t) xs = Some t' \<and> table_ok t' \<and> i \<le> seq t' \<and> i \<notin> ids (Some t')"
proof (induction xs arbitrary: t)
  case Nil
  then show ?case by (simp add: run_Nil)
next
  case (Cons x xs)
  from step_Some [OF Cons.prems(1), of x] obtain t1 where
    t1: "step (Some t) x = Some t1" "table_ok t1" "seq t \<le> seq t1"
        "ids (Some t1) \<subseteq> ids (Some t) \<union> {j. seq t < j}" by auto
  have "i \<le> seq t1" using Cons.prems(2) t1(3) by simp
  moreover have "i \<notin> ids (Some t1)" using t1(4) Cons.prems(2,3) by auto
  ultimately show ?case
    using Cons.IH [OF t1(2)] t1(1) by (simp add: run_Cons)
qed

section \<open>Create, then list\<close>

text \<open>
  Claim C2. Let a history that started from a well-formed database (the empty file
  included) have led to the table \<open>t\<close>, and let \<open>t\<close> not have used up the rowids. Then
  \<open>add_expense\<close> succeeds for all inputs, the valid ones among them, and the unfiltered
  listing afterwards is the listing before with exactly one more row; that row has the
  fields given to \<open>add_expense\<close> and an id that no table of the history ever held.
\<close>

theorem add_then_list:
  assumes "db_ok d0" and "run d0 xs = Some t" and "seq t < MAX_ROWID"
  shows "\<exists>d' old new r. add_expense (Some t) tx c de a p = Inr d'
     \<and> fetch_expenses (Some t) None None None = Inr old
     \<and> fetch_expenses d' None None None = Inr new
     \<and> r = \<lparr>id_col = seq t + 1, tx_date = tx, category = c, description = de, amount = a,
            payment_method = p\<rparr>
     \<and> mset new = add_mset r (mset old)
     \<and> length new = Suc (length old)
     \<and> id_col r \<notin> id_col ` set old
     \<and> id_col r \<notin> ever_ids d0 xs"
proof -
  define r where "r = \<lparr>id_col = seq t + 1, tx_date = tx, category = c, description = de,
                       amount = a, payment_method = p\<rparr>"
  define t' where "t' = \<lparr>rows = rows t @ [r], seq = seq t + 1\<rparr>"
  have ok: "table_ok t"
    using db_ok_run [OF assms(1), of xs] assms(2) by (simp add: db_ok_def)
  have add: "add_expense (Some t) tx c de a p = Inr (Some t')"
    using add_expense_ok [OF ok assms(3)] by (simp add: t'_def r_def)
  have old: "fetch_expenses (Some t) None None None = Inr (order_by_desc (rows t))"
    by (rule fetch_all)
  have new: "fetch_expenses (Some t') None None None = Inr (order_by_desc (rows t'))"
    by (rule fetch_all)
  have m: "mset (order_by_desc (rows t')) = add_mset r (mset (order_by_desc (rows t)))"
    by (simp add: mset_order_by_desc t'_def)
  have l: "length (order_by_desc (rows t')) = Suc (length (order_by_desc (rows t)))"
    by (simp add: length_order_by_desc t'_def)
  have fresh: "id_col r \<notin> ever_ids d0 xs"
  proof
    assume "id_col r \<in> ever_ids d0 xs"
    from ever_ids_le_seq [OF assms(1,2) this] show False by (simp add: r_def)
  qed
  have "id_col ` set (order_by_desc (rows t)) = ids (run d0 xs)"
    by (simp add: set_order_by_desc assms(2) ids_def)
  with fresh ids_run_ever [of d0 xs]
  have fresh_now: "id_col r \<notin> id_col ` set (order_by_desc (rows t))" by blast
  show ?thesis
    using add old new m l fresh fresh_now unfolding r_def by blast
qed

theorem add_then_list_witness:
  "db_ok None
   \<and> run None [Op_init, Op_add (Date 2024 1 5) ''Food'' ''lunch'' 100 ''UPI'', Op_delete 1]
       = Some \<lparr>rows = [], seq = 1\<rparr>
   \<and> seq \<lparr>rows = [], seq = 1\<rparr> < MAX_ROWID
   \<and> (0::real) < 50 \<and> ''Transport'' \<in> set CATEGORIES \<and> ''Cash'' \<in> set PAYMENT_METHODS
   \<and> (\<exists>d' new. add_expense (Some \<lparr>rows = [], seq = 1\<rparr>) (Date 2024 1 20) ''Transport'' ''bus'' 50
                   ''Cash'' = Inr d'
        \<and> fetch_expenses d' None None None = Inr new
        \<and> mset new = {#transport_jan#}
        \<and> id_col transport_jan \<notin> ever_ids None
             [Op_init, Op_add (Date 2024 1 5) ''Food'' ''lunch'' 100 ''UPI'', Op_delete 1])"
proof -
  have r: "run None [Op_init, Op_add (Date 2024 1 5) ''Food'' ''lunch'' 100 ''UPI'', Op_delete 1]
       = Some \<lparr>rows = [], seq = 1\<rparr>"
    by (simp add: run_def step_def init_db_def add_expense_def largest_rowid_def MAX_ROWID_def
        delete_expense_Some int64_small)
  have ok: "db_ok None" by (simp add: db_ok_def)
  have lt: "seq \<lparr>rows = [], seq = 1\<rparr> < MAX_ROWID" by (simp add: MAX_ROWID_def)
  have old: "fetch_expenses (Some \<lparr>rows = [], seq = 1\<rparr>) None None None = Inr []"
    by (simp add: fetch_all order_by_desc_def)
  show ?thesis
    using add_then_list [OF ok r lt, of "Date 2024 1 20" "''Transport''" "''bus''" 50 "''Cash''"]
      ok r lt old
    by (auto simp: transport_jan_def CATEGORIES_def PAYMENT_METHODS_def)
qed

section \<open>Delete, then list\<close>

text \<open>
  Claim C3, as stated, fails for an id that was never assigned: deleting it does
  nothing, and AUTOINCREMENT hands that id out later. On the fresh table, delete of id 1
  followed by one \<open>add_expense\<close> gives a listing that holds a row with id 1. It also
  fails for an id that does not fit 64 bits, which no store holds: the call raises
  \<open>OverflowError\<close>.
\<close>

theorem delete_unassigned_counterexample:
  "delete_expense (init_db None) 1 = Inr (init_db None)
   \<and> fetch_expenses (run (init_db None) [Op_add (Date 2024 1 5) ''Food'' ''lunch'' 100 ''UPI''])
        None None None = Inr [food_jan]
   \<and> id_col food_jan = 1
   \<and> delete_expense (init_db None) 9223372036854775808 = Inl OverflowError"
  by (simp add: init_db_def delete_expense_Some int64_small not_int64_big run_def step_def
      add_expense_def largest_rowid_def MAX_ROWID_def fetch_all order_by_desc_def food_jan_def)

text \<open>
  For an id in the 64-bit range \<open>delete_expense\<close> on a well-formed table does not fail,
  and no listing with any filters taken right after it has a row with the given id. When
  the id has been assigned before (it is at most the \<open>sqlite_sequence\<close> entry, as every id
  present is), this stays so after any further creates, updates and deletes. When the id
  is not present the table, and with it every listing, is unchanged.
\<close>

lemma delete_in_range:
  assumes "table_ok t" and range: "int64 i"
  shows "\<exists>d'. delete_expense (Some t) i = Inr d'
     \<and> (\<forall>A B k. \<exists>rs. fetch_expenses d' A B k = Inr rs \<and> i \<notin> id_col ` set rs)
     \<and> (i \<le> seq t \<longrightarrow>
          (\<forall>xs A B k. \<exists>rs. fetch_expenses (run d' xs) A B k = Inr rs \<and> i \<notin> id_col ` set rs))
     \<and> (i \<notin> ids (Some t) \<longrightarrow>
          d' = Some t \<and> (\<forall>A B k. fetch_expenses d' A B k = fetch_expenses (Some t) A B k))"
proof -
  define t' where "t' = t\<lparr>rows := filter (\<lambda>r. id_col r \<noteq> i) (rows t)\<rparr>"
  have del: "delete_expense (Some t) i = Inr (Some t')"
    using range by (simp add: delete_expense_Some t'_def)
  have ok': "table_ok t'"
    unfolding t'_def using assms(1) by (rule table_ok_delete)
  have gone: "i \<notin> ids (Some t')"
    by (auto simp: ids_def t'_def)
  have seq': "seq t' = seq t"
    by (simp add: t'_def)
  have listed: "\<exists>rs. fetch_expenses (Some u) A B k = Inr rs \<and> i \<notin> id_col ` set rs"
    if "i \<notin> ids (Some u)" for u A B k
    using that by (auto simp: fetch_expenses_Some set_order_by_desc ids_def)
  have now: "\<forall>A B k. \<exists>rs. fetch_expenses (Some t') A B k = Inr rs \<and> i \<notin> id_col ` set rs"
    using listed [OF gone] by blast
  have later: "\<forall>xs A B k. \<exists>rs. fetch_expenses (run (Some t') xs) A B k = Inr rs
                  \<and> i \<notin> id_col ` set rs" if "i \<le> seq t"
  proof (intro allI)
    fix xs A B k
    from that have "i \<le> seq t'" by (simp add: seq')
    from absent_stays [OF ok' this gone, of xs] obtain u where
      u: "run (Some t') xs = Some u" "i \<notin> ids (Some u)" by blast
    from listed [OF u(2), of A B k] show
      "\<exists>rs. fetch_expenses (run (Some t') xs) A B k = Inr rs \<and> i \<notin> id_col ` set rs"
      by (simp add: u(1))
  qed
  have noop: "Some t' = Some t" if "i \<notin> ids (Some t)"
  proof -
    have "filter (\<lambda>r. id_col r \<noteq> i) (rows t) = rows t"
      using that by (auto simp: ids_def filter_id_conv)
    then show ?thesis by (simp add: t'_def)
  qed
  show ?thesis
    using del now later noop by (metis (no_types))
qed

text \<open>
  Claim C3, amended. For every id in the signed 64-bit range, \<open>delete_expense\<close> completes
  without raising, and a listing with any filters made directly after it returns no
  record with that id. For every such id that has already been assigned (it is present
  or was present before: it is at most the largest id the table ever held), no later
  listing ever returns a record with that id again, even after further create, update
  and delete operations. \<open>delete_expense\<close> with an id in the range that is not present
  leaves every listing unchanged. With an id outside the range it raises
  \<open>OverflowError\<close>, and the store stays as it was.
\<close>

theorem delete_then_never_listed:
  assumes "table_ok t"
  shows "(int64 i \<longrightarrow>
      (\<exists>d'. delete_expense (Some t) i = Inr d'
         \<and> (\<forall>A B k. \<exists>rs. fetch_expenses d' A B k = Inr rs \<and> i \<notin> id_col ` set rs)
         \<and> (i \<le> seq t \<longrightarrow>
              (\<forall>xs A B k. \<exists>rs. fetch_expenses (run d' xs) A B k = Inr rs
                  \<and> i \<notin> id_col ` set rs))
         \<and> (i \<notin> ids (Some t) \<longrightarrow>
              d' = Some t
              \<and> (\<forall>A B k. fetch_expenses d' A B k = fetch_expenses (Some t) A B k))))
   \<and> (\<not> int64 i \<longrightarrow>
        delete_expense (Some t) i = Inl OverflowError
        \<and> step (Some t) (Op_delete i) = Some t)"
proof (intro conjI impI)
  assume "int64 i"
  with assms show "\<exists>d'. delete_expense (Some t) i = Inr d'
         \<and> (\<forall>A B k. \<exists>rs. fetch_expenses d' A B k = Inr rs \<and> i \<notin> id_col ` set rs)
         \<and> (i \<le> seq t \<longrightarrow>
              (\<forall>xs A B k. \<exists>rs. fetch_expenses (run d' xs) A B k = Inr rs
                  \<and> i \<notin> id_col ` set rs))
         \<and> (i \<notin> ids (Some t) \<longrightarrow>
              d' = Some t
              \<and> (\<forall>A B k. fetch_expenses d' A B k = fetch_expenses (Some t) A B k))"
    by (rule delete_in_range)
next
  assume "\<not> int64 i"
  then show "delete_expense (Some t) i = Inl OverflowError"
    by (simp add: delete_expense_Some)
next
  assume "\<not> int64 i"
  then show "step (Some t) (Op_delete i) = Some t"
    by (simp add: step_def delete_expense_Some)
qed

theorem delete_then_never_listed_witness:
  "table_ok sample \<and> int64 2 \<and> 2 \<le> seq sample \<and> int64 9 \<and> 9 \<notin> ids (Some sample)
   \<and> \<not> int64 9223372036854775808
   \<and> (\<exists>d'. delete_expense (Some sample) 2 = Inr d'
        \<and> (\<forall>xs A B k. \<exists>rs. fetch_expenses (run d' xs) A B k = Inr rs \<and> 2 \<notin> id_col ` set rs))
   \<and> delete_expense (Some sample) 9 = Inr (Some sample)
   \<and> step (Some sample) (Op_delete 9223372036854775808) = Some sample"
proof -
  have m: "2 \<le> seq sample" "9 \<notin> ids (Some sample)"
    by (simp_all add: ids_def sample_defs)
  show ?thesis
    using delete_then_never_listed [OF table_ok_sample, of 2]
      delete_then_never_listed [OF table_ok_sample, of 9]
      delete_then_never_listed [OF table_ok_sample, of 9223372036854775808]
      table_ok_sample m int64_small not_int64_big
    by (metis (no_types))
qed

section \<open>Facts about rounding to a double\<close>

text \<open>
  \<open>bit_length\<close> and \<open>exponent\<close> find the binary exponent of a positive number, so that
  \<open>round64\<close> rounds at the 53rd bit of the significand.
\<close>

lemma bit_length_bounds:
  "0 < n \<Longrightarrow> 2 ^ (bit_length n - 1) \<le> n \<and> n < 2 ^ bit_length n"
proof (induction n rule: bit_length.induct)
  case (1 n)
  show ?case
  proof (cases "n div 2 = 0")
    case True
    with 1 have "n = 1" by (cases n) auto
    then show ?thesis
      by (simp add: bit_length.simps [of "Suc 0"] bit_length.simps [of 0])
  next
    case False
    then have pos: "0 < n div 2" by simp
    from 1 have n: "n \<noteq> 0" by simp
    from "1.IH" [OF n pos] have
      lo: "2 ^ (bit_length (n div 2) - 1) \<le> n div 2" and hi: "n div 2 < 2 ^ bit_length (n div 2)"
      by simp_all
    have bl: "bit_length n = Suc (bit_length (n div 2))"
      using n by (simp add: bit_length.simps [of n])
    have blpos: "0 < bit_length (n div 2)"
      using pos by (simp add: bit_length.simps [of "n div 2"])
    have "2 ^ bit_length (n div 2) \<le> n"
    proof -
      have "2 * 2 ^ (bit_length (n div 2) - 1) \<le> 2 * (n div 2)" using lo by simp
      moreover have "2 * 2 ^ (bit_length (n div 2) - 1) = (2::nat) ^ bit_length (n div 2)"
        using blpos by (cases "bit_length (n div 2)") simp_all
      ultimately show ?thesis by linarith
    qed
    moreover have "n < 2 * 2 ^ bit_length (n div 2)"
      using hi by linarith
    ultimately show ?thesis by (simp add: bl)
  qed
qed

lemma nat_int_Suc: "nat (int j + 1) = Suc j" "nat (int j + 2) = Suc (Suc j)"
  by linarith+

lemma pow2_pos: "0 < pow2 e"
  by (simp add: pow2_def)

lemma pow2_Suc: "pow2 (e + 1) = 2 * pow2 e"
proof (cases "0 \<le> e")
  case True
  then show ?thesis by (simp add: pow2_def nat_add_distrib)
next
  case False
  then have "e < 0" by simp
  then obtain k where k: "e = - int (Suc k)"
    by (cases e rule: int_cases) auto
  show ?thesis
  proof (cases k)
    case 0
    then show ?thesis by (simp add: k pow2_def)
  next
    case (Suc j)
    have "- int (Suc k) + 1 = - int k" by simp
    then show ?thesis unfolding k by (simp add: pow2_def Suc nat_int_Suc)
  qed
qed

lemma exponent_bounds:
  assumes "0 < x"
  shows "pow2 (exponent x) \<le> x \<and> x < pow2 (exponent x + 1)"
proof (cases "1 \<le> x")
  case True
  define n where "n = nat \<lfloor>x\<rfloor>"
  have fl: "0 \<le> \<lfloor>x\<rfloor>" "1 \<le> \<lfloor>x\<rfloor>" using True by simp_all
  have n1: "0 < n" using fl(2) by (simp add: n_def)
  have rn: "real n = of_int \<lfloor>x\<rfloor>" using fl(1) by (simp add: n_def)
  have n2: "real n \<le> x" unfolding rn by simp
  have n3: "x < real n + 1" unfolding rn by linarith
  note n = n1 n2 n3
  from bit_length_bounds [OF n(1)] have
    b: "2 ^ (bit_length n - 1) \<le> n" "n < 2 ^ bit_length n" by simp_all
  have pos: "0 < bit_length n" using n(1) by (simp add: bit_length.simps [of n])
  have e: "exponent x = int (bit_length n) - 1"
    using True by (simp add: exponent_def n_def)
  have "pow2 (int (bit_length n) - 1) = 2 ^ (bit_length n - 1)"
    using pos by (simp add: pow2_def nat_diff_distrib')
  moreover have "pow2 (int (bit_length n) - 1 + 1) = 2 ^ bit_length n"
    by (simp add: pow2_def)
  moreover have "(2::real) ^ (bit_length n - 1) \<le> real n"
    using b(1) by (metis of_nat_le_iff of_nat_numeral of_nat_power)
  moreover have "real n + 1 \<le> 2 ^ bit_length n"
    using b(2) by (metis Suc_leI of_nat_Suc of_nat_le_iff of_nat_numeral of_nat_power add.commute)
  ultimately show ?thesis unfolding e using n by linarith
next
  case False
  with assms have x: "0 < x" "x < 1" by simp_all
  define y where "y = 1 / x"
  have y: "1 < y" using x by (simp add: y_def)
  define m where "m = nat (\<lceil>y\<rceil> - 1)"
  have c: "2 \<le> \<lceil>y\<rceil>" using y by linarith
  have m1: "0 < m" using c by (simp add: m_def)
  have rm: "real m = of_int \<lceil>y\<rceil> - 1" using c by (simp add: m_def)
  have m2: "real m < y" unfolding rm by linarith
  have m3: "y \<le> real m + 1" unfolding rm by simp
  note m = m1 m2 m3
  from bit_length_bounds [OF m(1)] have
    b: "2 ^ (bit_length m - 1) \<le> m" "m < 2 ^ bit_length m" by simp_all
  have pos: "0 < bit_length m" using m(1) by (simp add: bit_length.simps [of m])
  have e: "exponent x = - int (bit_length m)"
    using False by (simp add: exponent_def m_def y_def)
  have p1: "pow2 (- int (bit_length m)) = 1 / 2 ^ bit_length m"
    using pos by (simp add: pow2_def)
  have p2: "pow2 (- int (bit_length m) + 1) = 1 / 2 ^ (bit_length m - 1)"
  proof (cases "bit_length m")
    case 0
    with pos show ?thesis by simp
  next
    case (Suc k)
    then show ?thesis by (cases k) (simp_all add: pow2_def nat_int_Suc)
  qed
  have "(2::real) ^ (bit_length m - 1) \<le> real m"
    using b(1) by (metis of_nat_le_iff of_nat_numeral of_nat_power)
  then have lo: "(2::real) ^ (bit_length m - 1) < y" using m(2) by linarith
  have "real m + 1 \<le> 2 ^ bit_length m"
    using b(2) by (metis Suc_leI of_nat_Suc of_nat_le_iff of_nat_numeral of_nat_power add.commute)
  then have hi: "y \<le> 2 ^ bit_length m" using m(3) by linarith
  have "1 / 2 ^ bit_length m \<le> x"
    using hi x(1) by (simp add: y_def field_simps)
  moreover have "x < 1 / 2 ^ (bit_length m - 1)"
    using lo x(1) by (simp add: y_def field_simps)
  ultimately show ?thesis unfolding e p1 p2 by simp
qed


lemma pow2_add: "pow2 (e + int n) = 2 ^ n * pow2 e"
proof (induction n)
  case 0
  then show ?case by simp
next
  case (Suc n)
  have "e + int (Suc n) = (e + int n) + 1" by simp
  then have "pow2 (e + int (Suc n)) = pow2 ((e + int n) + 1)" by (rule arg_cong)
  also have "\<dots> = 2 * pow2 (e + int n)" by (rule pow2_Suc)
  finally show ?case by (simp add: Suc.IH)
qed

lemma round_half_even_nearest:
  "\<bar>of_int (round_half_even y) - y\<bar> \<le> \<bar>of_int k - y\<bar>"
proof -
  define f where "f = \<lfloor>y\<rfloor>"
  have f: "of_int f \<le> y" "y < of_int f + 1" by (simp_all add: f_def)
  consider "k \<le> f" | "f + 1 \<le> k" by linarith
  then have far: "\<bar>of_int k - y\<bar> \<ge> y - of_int f \<or> \<bar>of_int k - y\<bar> \<ge> of_int f + 1 - y"
  proof cases
    case 1
    then have "(of_int k :: real) \<le> of_int f" by simp
    then show ?thesis using f by linarith
  next
    case 2
    then have "(of_int f :: real) + 1 \<le> of_int k"
      by (metis of_int_1 of_int_add of_int_le_iff)
    then show ?thesis using f by linarith
  qed
  have near: "\<bar>of_int (round_half_even y) - y\<bar> \<le> y - of_int f"
    "\<bar>of_int (round_half_even y) - y\<bar> \<le> of_int f + 1 - y"
    using f by (auto simp: round_half_even_def f_def [symmetric])
  from far near show ?thesis by linarith
qed

text \<open>
  \<open>round64 x\<close> is a multiple of the unit in the last place of \<open>x\<close>, no multiple is nearer
  to \<open>x\<close>, and the unit leaves \<open>x\<close> a significand of 53 bits.
\<close>

lemma abs_scale:
  fixes a x u :: real
  assumes "0 < u"
  shows "\<bar>a * u - x\<bar> = \<bar>a - x / u\<bar> * u"
proof -
  have "a * u - x = (a - x / u) * u"
    using assms by (simp add: field_simps)
  then show ?thesis
    using assms by (simp add: abs_mult)
qed

lemma round64_nearest:
  assumes "x \<noteq> 0"
  shows "\<bar>round64 x - x\<bar> \<le> \<bar>of_int k * pow2 (exponent \<bar>x\<bar> - 52) - x\<bar>"
proof -
  define u where "u = pow2 (exponent \<bar>x\<bar> - 52)"
  have u: "0 < u" by (simp add: u_def pow2_pos)
  have "\<bar>round64 x - x\<bar> = \<bar>of_int (round_half_even (x / u)) * u - x\<bar>"
    using assms by (simp add: round64_def u_def)
  also have "\<dots> = \<bar>of_int (round_half_even (x / u)) - x / u\<bar> * u"
    using u by (rule abs_scale)
  also have "\<dots> \<le> \<bar>of_int k - x / u\<bar> * u"
    using u round_half_even_nearest [of "x / u" k] by (simp add: mult_right_mono)
  also have "\<dots> = \<bar>of_int k * u - x\<bar>"
    using u by (rule abs_scale [symmetric])
  finally show ?thesis by (simp add: u_def)
qed

lemma significand_53_bits:
  assumes "x \<noteq> 0"
  shows "2 ^ 52 \<le> \<bar>x\<bar> / pow2 (exponent \<bar>x\<bar> - 52)
       \<and> \<bar>x\<bar> / pow2 (exponent \<bar>x\<bar> - 52) < 2 ^ 53"
proof -
  define e where "e = exponent \<bar>x\<bar>"
  define u where "u = pow2 (e - 52)"
  have u: "0 < u" by (simp add: u_def pow2_pos)
  from assms have "0 < \<bar>x\<bar>" by simp
  from exponent_bounds [OF this] have b: "pow2 e \<le> \<bar>x\<bar>" "\<bar>x\<bar> < pow2 (e + 1)"
    by (simp_all add: e_def)
  have "e - 52 + int 52 = e" "e - 52 + int 53 = e + 1" by simp_all
  then have "pow2 (e - 52 + int 52) = pow2 e" "pow2 (e - 52 + int 53) = pow2 (e + 1)"
    by (simp_all only:)
  then have "pow2 e = 2 ^ 52 * u" "pow2 (e + 1) = 2 ^ 53 * u"
    unfolding pow2_add u_def by simp_all
  then have "2 ^ 52 * u \<le> \<bar>x\<bar>" "\<bar>x\<bar> < 2 ^ 53 * u" using b by simp_all
  then have "2 ^ 52 \<le> \<bar>x\<bar> / u \<and> \<bar>x\<bar> / u < 2 ^ 53"
    using u by (simp add: pos_le_divide_eq pos_divide_less_eq)
  then show ?thesis by (simp add: u_def e_def)
qed

section \<open>Facts about the groups of categories\<close>

lemma groupby_sum_alt:
  "groupby_sum summ df =
     map (\<lambda>c. (c, group_total summ df c)) (sort (remdups (map category df)))"
  by (simp add: groupby_sum_def group_total_def)

lemma map_fst_groupby_sum:
  "map fst (groupby_sum summ df) = sort (remdups (map category df))"
  by (simp add: groupby_sum_alt comp_def)

lemma distinct_groupby_sum: "distinct (map fst (groupby_sum summ df))"
  by (simp add: map_fst_groupby_sum)

lemma set_fst_groupby_sum: "fst ` set (groupby_sum summ df) = category ` set df"
  using arg_cong [OF map_fst_groupby_sum, of set summ df] by simp

lemma snd_groupby_sum:
  "(c, s) \<in> set (groupby_sum summ df) \<Longrightarrow> s = group_total summ df c"
  by (auto simp: groupby_sum_alt)

text \<open>In exact arithmetic the sums of the groups add up to the sum of the column.\<close>

lemma group_total_Cons:
  "group_total sum_list (r # rs) =
     (\<lambda>c. (if category r = c then amount r else 0) + group_total sum_list rs c)"
  by (rule ext) (simp add: group_total_def)

lemma sum_list_delta:
  fixes a :: real
  assumes "distinct cs" "x \<in> set cs"
  shows "sum_list (map (\<lambda>c. if x = c then a else 0) cs) = a"
proof -
  have "sum_list (map (\<lambda>c. if x = c then a else 0) cs) = (\<Sum>c\<in>set cs. if x = c then a else 0)"
    using assms(1) by (rule sum_list_distinct_conv_sum_set)
  also have "\<dots> = a" using assms(2) by simp
  finally show ?thesis .
qed

lemma sum_group_totals:
  "distinct cs \<Longrightarrow> category ` set df \<subseteq> set cs
     \<Longrightarrow> sum_list (map (group_total sum_list df) cs) = sum_list (map amount df)"
proof (induction df)
  case Nil
  then show ?case by (simp add: group_total_def)
next
  case (Cons r rs)
  have "sum_list (map (group_total sum_list (r # rs)) cs)
      = sum_list (map (\<lambda>c. if category r = c then amount r else 0) cs)
        + sum_list (map (group_total sum_list rs) cs)"
    by (simp add: group_total_Cons sum_list_addf)
  also have "sum_list (map (\<lambda>c. if category r = c then amount r else 0) cs) = amount r"
    using Cons.prems by (intro sum_list_delta) auto
  also have "sum_list (map (group_total sum_list rs) cs) = sum_list (map amount rs)"
    using Cons by auto
  finally show ?case by simp
qed

lemma sum_groupby_sum: "sum_list (map snd (groupby_sum sum_list df)) = total_spend df"
proof -
  have "sum_list (map snd (groupby_sum sum_list df))
      = sum_list (map (group_total sum_list df) (sort (remdups (map category df))))"
    by (simp add: groupby_sum_alt comp_def)
  also have "\<dots> = sum_list (map amount df)"
    by (rule sum_group_totals) auto
  finally show ?thesis by (simp add: total_spend_def)
qed

lemma total_spend_with_sum_list: "total_spend_with sum_list df = total_spend df"
  by (simp add: total_spend_with_def total_spend_def)

lemma sort_values_desc_exists:
  "sort_values_desc xs (rev (sort_key snd xs))"
proof -
  have "sorted (map snd (sort_key snd xs))" by simp
  then have "sorted_wrt (\<lambda>a b. snd a \<le> snd b) (sort_key snd xs)"
    by (simp add: sorted_wrt_map)
  then show ?thesis
    by (simp add: sort_values_desc_def sorted_wrt_rev)
qed

lemma groupby_sum_sample:
  "groupby_sum sum_list (rows sample) = [(''Food'', 125), (''Transport'', 50)]"
  by (simp add: groupby_sum_def sample_defs)

text \<open>The three doubles, and their sums in double arithmetic.\<close>

lemma round64_7: "round64 (7 / 100) = 1261007895663739 / 18014398509481984"
  by code_simp

lemma round64_4: "round64 (4 / 100) = 5764607523034235 / 144115188075855872"
  by code_simp

lemma round64_18: "round64 (18 / 100) = 3242591731706757 / 18014398509481984"
  by code_simp

lemma sum_f64_food: "sum_f64 [round64 (7 / 100), round64 (18 / 100)] = 1 / 4"
  by code_simp

lemma sum_f64_all:
  "sum_f64 [round64 (7 / 100), round64 (4 / 100), round64 (18 / 100)]
     = 326510972984361 / 1125899906842624"
  by code_simp

lemma sum_f64_totals:
  "sum_f64 [1 / 4, round64 (4 / 100)] = 5224175567749775 / 18014398509481984"
  by code_simp

lemma groupby_sum_small_change:
  "groupby_sum sum_f64 small_change = [(''Food'', 1 / 4), (''Transport'', round64 (4 / 100))]"
proof -
  have "groupby_sum sum_f64 small_change
      = [(''Food'', sum_f64 [round64 (7 / 100), round64 (18 / 100)]),
         (''Transport'', sum_f64 [round64 (4 / 100)])]"
    by (simp add: groupby_sum_def small_change_def del: sum_f64.simps)
  then show ?thesis
    by (simp only: sum_f64_food) simp
qed

section \<open>Totals by category\<close>

text \<open>
  Claim C8, as stated, fails in its last part: the amounts are doubles, and the sums of
  doubles round. For the amounts 0.07 and 0.18 of Food and 0.04 of Transport the total
  of the frame is 0.29000000000000004, while the totals of the categories, 0.25 and
  0.04, add up to 0.29, in double arithmetic and also exactly.
\<close>

theorem by_category_rounding_counterexample:
  "by_category sum_f64 small_change [(''Food'', 1 / 4), (''Transport'', round64 (4 / 100))]
   \<and> total_spend_with sum_f64 small_change = 326510972984361 / 1125899906842624
   \<and> sum_f64 (map snd [(''Food'', 1 / 4), (''Transport'', round64 (4 / 100))])
       = 5224175567749775 / 18014398509481984
   \<and> sum_f64 (map snd [(''Food'', 1 / 4), (''Transport'', round64 (4 / 100))])
       \<noteq> total_spend_with sum_f64 small_change
   \<and> sum_list (map snd [(''Food'', 1 / 4), (''Transport'', round64 (4 / 100))])
       \<noteq> total_spend_with sum_f64 small_change"
proof -
  have b: "by_category sum_f64 small_change
      [(''Food'', 1 / 4), (''Transport'', round64 (4 / 100))]"
  proof -
    have "round64 (4 / 100) \<le> 1 / 4"
      unfolding round64_4 by simp
    then show ?thesis
      by (simp add: by_category_def sort_values_desc_def groupby_sum_small_change)
  qed
  have t: "total_spend_with sum_f64 small_change = 326510972984361 / 1125899906842624"
    by (simp only: total_spend_with_def small_change_def list.map expense.select_convs
        sum_f64_all)
  have s: "sum_f64 (map snd [(''Food'', 1 / 4), (''Transport'', round64 (4 / 100))])
      = 5224175567749775 / 18014398509481984"
    by (simp only: list.map snd_conv sum_f64_totals)
  have e: "sum_list (map snd [(''Food'', 1 / 4 :: real), (''Transport'', round64 (4 / 100))])
      = 41793404541998203 / 144115188075855872"
    unfolding round64_4 by simp
  have ne1: "(5224175567749775 / 18014398509481984 :: real)
      \<noteq> 326510972984361 / 1125899906842624"
    by simp
  have ne2: "(41793404541998203 / 144115188075855872 :: real)
      \<noteq> 326510972984361 / 1125899906842624"
    by simp
  show ?thesis
    unfolding s t e using b ne1 ne2 by simp
qed

text \<open>
  Claim C8, amended. For every frame and every summation, \<open>by_category\<close> has a result,
  and every result it can give has one pair for each category that occurs in the frame
  and no other pair; the total of a pair is the sum, by that summation, of the amounts of
  the rows of its category in the order of the frame; and the pairs are sorted by total
  descending. When the sums are exact the totals of all pairs add up to the total of the
  frame; with doubles, whose additions round, they need not.
\<close>

theorem by_category_totals:
  "(\<exists>out. by_category summ df out)
   \<and> (\<forall>out. by_category summ df out \<longrightarrow>
          distinct (map fst out)
        \<and> fst ` set out = category ` set df
        \<and> list_all (\<lambda>(c, s). s = summ (map amount (filter (\<lambda>r. category r = c) df))) out
        \<and> sorted_wrt (\<lambda>a b. snd b \<le> snd a) out)
   \<and> (\<forall>out. by_category sum_list df out \<longrightarrow>
          sum_list (map snd out) = total_spend_with sum_list df
        \<and> sum_list (map snd out) = total_spend df)"
proof (intro conjI allI impI)
  show "\<exists>out. by_category summ df out"
    unfolding by_category_def using sort_values_desc_exists by blast
next
  fix out assume "by_category summ df out"
  then have m: "mset out = mset (groupby_sum summ df)"
    and s: "sorted_wrt (\<lambda>a b. snd b \<le> snd a) out"
    by (simp_all add: by_category_def sort_values_desc_def)
  from m have set_eq: "set out = set (groupby_sum summ df)" by (rule mset_eq_setD)
  show "sorted_wrt (\<lambda>a b. snd b \<le> snd a) out" by (rule s)
  have "mset (map fst out) = mset (map fst (groupby_sum summ df))"
    using m by simp
  then show "distinct (map fst out)"
    using distinct_groupby_sum [of summ df] by (metis mset_eq_imp_distinct_iff)
  show "fst ` set out = category ` set df"
    by (simp add: set_eq set_fst_groupby_sum)
  show "list_all (\<lambda>(c, s). s = summ (map amount (filter (\<lambda>r. category r = c) df))) out"
    unfolding list_all_iff set_eq using snd_groupby_sum [of _ _ summ df]
    by (auto simp: group_total_def)
next
  fix out assume "by_category sum_list df out"
  then have m: "mset out = mset (groupby_sum sum_list df)"
    by (simp add: by_category_def sort_values_desc_def)
  have "sum_list (map snd out) = sum_mset (image_mset snd (mset out))"
    by (metis mset_map sum_mset_sum_list)
  also have "\<dots> = sum_list (map snd (groupby_sum sum_list df))"
    unfolding m by (metis mset_map sum_mset_sum_list)
  finally show exact: "sum_list (map snd out) = total_spend df"
    by (simp add: sum_groupby_sum)
  then show "sum_list (map snd out) = total_spend_with sum_list df"
    by (simp add: total_spend_with_sum_list)
qed

theorem by_category_totals_witness:
  "by_category sum_list (rows sample) [(''Food'', 125), (''Transport'', 50)]
   \<and> distinct (map fst [(''Food'', 125 :: real), (''Transport'', 50)])
   \<and> sum_list (map snd [(''Food'', 125), (''Transport'', 50)]) = total_spend (rows sample)
   \<and> total_spend (rows sample) = 175"
proof -
  have b: "by_category sum_list (rows sample) [(''Food'', 125), (''Transport'', 50)]"
    by (simp add: by_category_def sort_values_desc_def groupby_sum_sample)
  have t: "total_spend (rows sample) = 175"
    by (simp add: total_spend_def sample_defs)
  show ?thesis
    using by_category_totals [of sum_list "rows sample"] b t by auto
qed

section \<open>Facts about the months\<close>

lemma month_index_start: "month_index (month_start i) = i"
  by (simp add: month_index_def month_start_def)

lemma month_start_index:
  assumes "valid_date d"
  shows "month_start (month_index d) = Date (year d) (month d) 1"
proof -
  from assms obtain m where m: "month d = Suc m" "m < 12"
    by (cases "month d") (auto simp: valid_date_def)
  have "(12 * year d + m) div 12 = year d" "(12 * year d + m) mod 12 = m"
    using m(2) by simp_all
  then show ?thesis
    by (simp add: month_index_def month_start_def m(1))
qed

lemma date_key_month_start_less:
  assumes "i < j"
  shows "date_key (month_start i) < date_key (month_start j)"
proof (cases "i div 12 = j div 12")
  case True
  then have "i mod 12 < j mod 12"
    using assms div_mult_mod_eq [of i 12] div_mult_mod_eq [of j 12] by linarith
  with True show ?thesis
    by (simp add: date_key_def month_start_def)
next
  case False
  moreover have "i div 12 \<le> j div 12"
    using assms by (simp add: div_le_mono)
  ultimately have "i div 12 < j div 12" by simp
  then show ?thesis
    by (simp add: date_key_def month_start_def)
qed

lemma by_month_eq:
  assumes "df \<noteq> []"
  shows "by_month df =
     map (\<lambda>i. (month_start i, month_total df i)) [Min (occupied df) ..< Suc (Max (occupied df))]"
proof -
  from assms obtain r rs where df: "df = r # rs" by (cases df) auto
  have lo: "fold min (map (\<lambda>r. month_index (tx_date r)) rs) (month_index (tx_date r))
      = Min (occupied df)"
    unfolding occupied_def df by (simp add: Min.set_eq_fold [symmetric])
  have hi: "fold max (map (\<lambda>r. month_index (tx_date r)) rs) (month_index (tx_date r))
      = Max (occupied df)"
    unfolding occupied_def df by (simp add: Max.set_eq_fold [symmetric])
  have "by_month df = map (\<lambda>i. (month_start i, month_total df i))
      [fold min (map (\<lambda>r. month_index (tx_date r)) rs) (month_index (tx_date r)) ..<
       Suc (fold max (map (\<lambda>r. month_index (tx_date r)) rs) (month_index (tx_date r)))]"
    unfolding by_month_def month_total_def df by simp
  then show ?thesis unfolding lo hi .
qed

lemma sorted_wrt_map_upt:
  assumes "\<And>i j. i < j \<Longrightarrow> P (f i) (f j)"
  shows "sorted_wrt P (map f [a..<b])"
proof -
  have "sorted_wrt (<) [a..<b]" by simp
  then have "sorted_wrt (\<lambda>i j. P (f i) (f j)) [a..<b]"
    by (rule sorted_wrt_mono_rel [rotated]) (rule assms)
  then show ?thesis by (simp add: sorted_wrt_map)
qed

lemma by_month_sample:
  "by_month (rows sample) = [(Date 2024 1 1, 150), (Date 2024 2 1, 0), (Date 2024 3 1, 25)]"
  by (simp add: by_month_def sample_defs month_index_def month_start_def upt_rec)

section \<open>Totals by month\<close>

text \<open>
  Claim C1, as stated, fails: \<open>resample\<close> lays a bin over every calendar month between
  the earliest and the latest row, and the sum of an empty bin is 0. The sample frame has
  rows in January and in March 2024 and none in February, and \<open>by_month\<close> gives it a
  February bucket with total 0.
\<close>

theorem by_month_gap_counterexample:
  "by_month [food_jan, transport_jan, food_mar]
     = [(Date 2024 1 1, 150), (Date 2024 2 1, 0), (Date 2024 3 1, 25)]
   \<and> month (tx_date food_jan) = 1 \<and> month (tx_date transport_jan) = 1
   \<and> month (tx_date food_mar) = 3"
  by (simp add: by_month_def month_index_def month_start_def upt_rec
      food_jan_def transport_jan_def food_mar_def)

text \<open>
  Claim C1, amended. For every frame that is not empty and holds calendar dates,
  \<open>by_month\<close> gives one bucket for every calendar month from the earliest month that
  holds a row to the latest, in ascending order, each labelled with the first day of its
  month and carrying the sum of the amounts of that month's rows. Every month that holds
  a row has its bucket; a month in between that holds no row has a bucket with total 0;
  months before the earliest or after the latest have none.
\<close>

theorem by_month_buckets:
  assumes "df \<noteq> []" and "list_all (\<lambda>r. valid_date (tx_date r)) df"
  shows "by_month df =
           map (\<lambda>i. (month_start i, month_total df i))
             [Min (occupied df) ..< Suc (Max (occupied df))]
       \<and> sorted_wrt (\<lambda>a b. date_key (fst a) < date_key (fst b)) (by_month df)
       \<and> list_all (\<lambda>r. (Date (year (tx_date r)) (month (tx_date r)) 1,
                         month_total df (month_index (tx_date r))) \<in> set (by_month df)) df
       \<and> (\<forall>i. Min (occupied df) \<le> i \<and> i \<le> Max (occupied df) \<and> i \<notin> occupied df
              \<longrightarrow> (month_start i, 0) \<in> set (by_month df))
       \<and> (\<forall>i. i < Min (occupied df) \<or> Max (occupied df) < i
              \<longrightarrow> month_start i \<notin> fst ` set (by_month df))"
proof -
  let ?lo = "Min (occupied df)" and ?hi = "Max (occupied df)"
  have fin: "finite (occupied df)" and ne: "occupied df \<noteq> {}"
    using assms(1) by (simp_all add: occupied_def)
  have eq: "by_month df = map (\<lambda>i. (month_start i, month_total df i)) [?lo ..< Suc ?hi]"
    using assms(1) by (rule by_month_eq)
  have set_eq: "set (by_month df) = (\<lambda>i. (month_start i, month_total df i)) ` {?lo..?hi}"
    unfolding eq by (simp only: set_map set_upt atLeastLessThanSuc_atLeastAtMost)
  have sorted: "sorted_wrt (\<lambda>a b. date_key (fst a) < date_key (fst b)) (by_month df)"
    unfolding eq by (rule sorted_wrt_map_upt) (simp add: date_key_month_start_less)
  have occ: "list_all (\<lambda>r. (Date (year (tx_date r)) (month (tx_date r)) 1,
                         month_total df (month_index (tx_date r))) \<in> set (by_month df)) df"
    unfolding list_all_iff
  proof
    fix r assume r: "r \<in> set df"
    then have "month_index (tx_date r) \<in> occupied df" by (simp add: occupied_def)
    then have "month_index (tx_date r) \<in> {?lo..?hi}" using fin by simp
    then have "(month_start (month_index (tx_date r)), month_total df (month_index (tx_date r)))
        \<in> set (by_month df)"
      unfolding set_eq by (rule imageI)
    moreover have "valid_date (tx_date r)" using assms(2) r by (simp add: list_all_iff)
    ultimately show "(Date (year (tx_date r)) (month (tx_date r)) 1,
                         month_total df (month_index (tx_date r))) \<in> set (by_month df)"
      by (simp add: month_start_index)
  qed
  have empty: "month_total df i = 0" if "i \<notin> occupied df" for i
  proof -
    have "filter (\<lambda>r. month_index (tx_date r) = i) df = []"
      using that by (auto simp: filter_empty_conv occupied_def)
    then show ?thesis by (simp add: month_total_def)
  qed
  have gap: "\<forall>i. ?lo \<le> i \<and> i \<le> ?hi \<and> i \<notin> occupied df
              \<longrightarrow> (month_start i, 0) \<in> set (by_month df)"
  proof (intro allI impI)
    fix i assume i: "?lo \<le> i \<and> i \<le> ?hi \<and> i \<notin> occupied df"
    then have "i \<in> {?lo..?hi}" by simp
    then have "(month_start i, month_total df i) \<in> set (by_month df)"
      unfolding set_eq by (rule imageI)
    then show "(month_start i, 0) \<in> set (by_month df)" using i by (simp add: empty)
  qed
  have out: "\<forall>i. i < ?lo \<or> ?hi < i \<longrightarrow> month_start i \<notin> fst ` set (by_month df)"
  proof (intro allI impI notI)
    fix i assume i: "i < ?lo \<or> ?hi < i" and "month_start i \<in> fst ` set (by_month df)"
    then obtain j where j: "j \<in> {?lo..?hi}" "month_start i = month_start j"
      unfolding set_eq by auto
    from j(2) have "i = j" by (metis month_index_start)
    with i j(1) show False by auto
  qed
  show ?thesis
    by (intro conjI) (fact eq, fact sorted, fact occ, fact gap, fact out)
qed

theorem by_month_buckets_witness:
  "rows sample \<noteq> [] \<and> list_all (\<lambda>r. valid_date (tx_date r)) (rows sample)
   \<and> by_month (rows sample) = [(Date 2024 1 1, 150), (Date 2024 2 1, 0), (Date 2024 3 1, 25)]
   \<and> sorted_wrt (\<lambda>a b. date_key (fst a) < date_key (fst b)) (by_month (rows sample))"
proof -
  have ne: "rows sample \<noteq> []" by (simp add: sample_defs)
  have v: "list_all (\<lambda>r. valid_date (tx_date r)) (rows sample)"
    by (simp add: sample_defs valid_date_def)
  have s: "sorted_wrt (\<lambda>a b. date_key (fst a) < date_key (fst b)) (by_month (rows sample))"
    by (rule conjunct1 [OF conjunct2 [OF by_month_buckets [OF ne v]]])
  show ?thesis
    using ne v by_month_sample s by blast
qed

end
